theory Spec2Isabelle
  imports Complex_Main "HOL-Library.Tree" "HOL-Library.Sublist" "HOL-Library.Log_Nat"
begin

section \<open>Data model of \<^verbatim>\<open>fb.js\<close>\<close>

text \<open>
  The objects stored in the tree implement the interval interface
  (\<^verbatim>\<open>id\<close> / \<^verbatim>\<open>start\<close> / \<^verbatim>\<open>end\<close>).  The calendar stores \<^verbatim>\<open>Event\<close>
  objects, the tests store plain object literals; the tree reads nothing but these
  three properties.
\<close>

record interval =
  ev_id :: int
  ev_start :: int
  ev_end :: int

text \<open>\<^verbatim>\<open>Node.RED = true\<close>, \<^verbatim>\<open>Node.BLACK = false\<close>, \<^verbatim>\<open>Node.LEFT = 0\<close>, \<^verbatim>\<open>Node.RIGHT = 1\<close>.\<close>

datatype color = RED | BLACK

datatype direction = LEFT | RIGHT

text \<open>
  A \<^verbatim>\<open>Node\<close> object.  Object references are handles into the store of the tree
  (\<open>None\<close> is \<^verbatim>\<open>null\<close>); \<^verbatim>\<open>_max\<close> starts as \<^verbatim>\<open>null\<close>.
\<close>

record node =
  n_data :: interval
  n_left :: "nat option"
  n_right :: "nat option"
  n_parent :: "nat option"
  n_max :: "int option"
  n_color :: color

text \<open>
  A \<^verbatim>\<open>Tree\<close> object together with the \<^verbatim>\<open>Node\<close> objects allocated by it:
  \<open>t_nodes\<close> is the object store, a node's handle is its index, and
  \<^verbatim>\<open>new Node(data)\<close> appends to it.
\<close>

record itree =
  t_nodes :: "node list"
  t_root :: "nat option"
  t_comparator :: "interval \<Rightarrow> interval \<Rightarrow> direction"
  t_size :: nat

text \<open>
  Exceptions: a property access on \<^verbatim>\<open>null\<close> raises a \<^verbatim>\<open>TypeError\<close>; the two
  \<^verbatim>\<open>throw new Error(...)\<close> of the source are \<open>ChildIsNull\<close> and \<open>NoEventsSet\<close>.
\<close>

datatype error = TypeError | ChildIsNull | NoEventsSet

text \<open>What a call evaluates to: \<^verbatim>\<open>undefined\<close> or a reference to a node.\<close>

datatype jsval = Undefined | NodeRef nat

definition new_Node :: "interval \<Rightarrow> node" where
  "new_Node d = \<lparr>n_data = d, n_left = None, n_right = None, n_parent = None,
                 n_max = None, n_color = RED\<rparr>"

definition new_Tree :: "(interval \<Rightarrow> interval \<Rightarrow> direction) \<Rightarrow> itree" where
  "new_Tree cmp = \<lparr>t_nodes = [], t_root = None, t_comparator = cmp, t_size = 0\<rparr>"

section \<open>Node methods\<close>

text \<open>Reading through a reference; \<^verbatim>\<open>null\<close> has no properties.\<close>

definition deref :: "itree \<Rightarrow> nat option \<Rightarrow> error + node" where
  "deref T p = (case p of
       None \<Rightarrow> Inl TypeError
     | Some a \<Rightarrow> if a < length (t_nodes T) then Inr (t_nodes T ! a) else Inl TypeError)"

text \<open>Writing through a reference.\<close>

definition modify :: "itree \<Rightarrow> nat option \<Rightarrow> (node \<Rightarrow> node) \<Rightarrow> error + itree" where
  "modify T p f = (case p of
       None \<Rightarrow> Inl TypeError
     | Some a \<Rightarrow> if a < length (t_nodes T)
         then Inr (T\<lparr>t_nodes := (t_nodes T)[a := f (t_nodes T ! a)]\<rparr>)
         else Inl TypeError)"

definition isRed :: "itree \<Rightarrow> nat option \<Rightarrow> error + bool" where
  "isRed T p = (case deref T p of Inl e \<Rightarrow> Inl e | Inr n \<Rightarrow> Inr (n_color n = RED))"

definition isBlack :: "itree \<Rightarrow> nat option \<Rightarrow> error + bool" where
  "isBlack T p = (case deref T p of Inl e \<Rightarrow> Inl e | Inr n \<Rightarrow> Inr (n_color n = BLACK))"

definition setColor :: "itree \<Rightarrow> nat option \<Rightarrow> color \<Rightarrow> error + itree" where
  "setColor T p c = modify T p (\<lambda>n. n\<lparr>n_color := c\<rparr>)"

definition getParent :: "itree \<Rightarrow> nat option \<Rightarrow> error + nat option" where
  "getParent T p = (case deref T p of Inl e \<Rightarrow> Inl e | Inr n \<Rightarrow> Inr (n_parent n))"

definition setParent :: "itree \<Rightarrow> nat option \<Rightarrow> nat option \<Rightarrow> error + itree" where
  "setParent T p q = modify T p (\<lambda>n. n\<lparr>n_parent := q\<rparr>)"

definition getMax :: "itree \<Rightarrow> nat option \<Rightarrow> error + int option" where
  "getMax T p = (case deref T p of Inl e \<Rightarrow> Inl e | Inr n \<Rightarrow> Inr (n_max n))"

definition setMax :: "itree \<Rightarrow> nat option \<Rightarrow> int option \<Rightarrow> error + itree" where
  "setMax T p m = modify T p (\<lambda>n. n\<lparr>n_max := m\<rparr>)"

definition getGrandfather :: "itree \<Rightarrow> nat option \<Rightarrow> error + nat option" where
  "getGrandfather T p = (case getParent T p of
       Inl e \<Rightarrow> Inl e
     | Inr q \<Rightarrow> if q \<noteq> None then getParent T q else Inr None)"

definition getChild :: "itree \<Rightarrow> nat option \<Rightarrow> direction \<Rightarrow> error + nat option" where
  "getChild T p d = (case deref T p of
       Inl e \<Rightarrow> Inl e
     | Inr n \<Rightarrow> Inr (case d of RIGHT \<Rightarrow> n_right n | LEFT \<Rightarrow> n_left n))"

definition setChild :: "itree \<Rightarrow> nat option \<Rightarrow> nat option \<Rightarrow> direction \<Rightarrow> error + itree" where
  "setChild T p c d = modify T p
     (\<lambda>n. case d of RIGHT \<Rightarrow> n\<lparr>n_right := c\<rparr> | LEFT \<Rightarrow> n\<lparr>n_left := c\<rparr>)"

section \<open>Events\<close>

text \<open>\<^verbatim>\<open>Event.comparator\<close>: 0 when the first event starts earlier, 1 otherwise.\<close>

definition Event_comparator :: "interval \<Rightarrow> interval \<Rightarrow> direction" where
  "Event_comparator event1 event2 = (if ev_start event1 < ev_start event2 then LEFT else RIGHT)"

text \<open>\<^verbatim>\<open>Event.isColliding\<close>.\<close>

definition isColliding :: "interval \<Rightarrow> interval \<Rightarrow> bool" where
  "isColliding event1 event2 =
     (if ev_start event1 \<le> ev_end event2 \<and> ev_end event1 \<ge> ev_start event2 then True else False)"

section \<open>Tree: insertion\<close>

text \<open>
  \<^verbatim>\<open>Math.max\<close> converts its arguments to numbers, and \<^verbatim>\<open>null\<close> converts to 0.
\<close>

definition to_number :: "int option \<Rightarrow> int" where
  "to_number v = (case v of None \<Rightarrow> 0 | Some x \<Rightarrow> x)"

text \<open>Sequencing of calls that may throw: an exception ends the run.\<close>

definition bindE :: "error + 'a \<Rightarrow> ('a \<Rightarrow> error + 'b) \<Rightarrow> error + 'b" where
  "bindE m f = (case m of Inl e \<Rightarrow> Inl e | Inr x \<Rightarrow> f x)"

text \<open>\<^verbatim>\<open>Tree.prototype._getMax\<close>.\<close>

definition Tree_getMax :: "itree \<Rightarrow> nat option \<Rightarrow> error + int" where
  "Tree_getMax T node =
     bindE (getChild T node LEFT) (\<lambda>lc.
     bindE (getChild T node RIGHT) (\<lambda>rc.
     bindE (deref T node) (\<lambda>n.
     bindE (if lc \<noteq> None then getMax T lc else Inr (Some 0)) (\<lambda>lm.
     bindE (if rc \<noteq> None then getMax T rc else Inr (Some 0)) (\<lambda>rm.
       Inr (max (ev_end (n_data n)) (max (to_number lm) (to_number rm))))))))"

text \<open>
  \<^verbatim>\<open>Tree.prototype._rotate\<close>; \<^verbatim>\<open>_leftRotate\<close> and \<^verbatim>\<open>_rightRotate\<close> call it with
  \<open>LEFT\<close> and \<open>RIGHT\<close>.
\<close>

definition rotate :: "itree \<Rightarrow> nat option \<Rightarrow> direction \<Rightarrow> error + itree" where
  "rotate T node direction =
     (let otherDirection = (if direction = RIGHT then LEFT else RIGHT) in
      bindE (getChild T node otherDirection) (\<lambda>child.
      if child = None then Inl ChildIsNull else
      bindE (getChild T child direction) (\<lambda>inner.
      bindE (setChild T node inner otherDirection) (\<lambda>T1.
      bindE (if inner \<noteq> None then setParent T1 inner node else Inr T1) (\<lambda>T2.
      bindE (getParent T2 node) (\<lambda>par.
      bindE (setParent T2 child par) (\<lambda>T3.
      bindE (if par = None then Inr (T3\<lparr>t_root := child\<rparr>)
             else bindE (getChild T3 par direction) (\<lambda>c.
               if node = c then setChild T3 par child direction
               else setChild T3 par child otherDirection)) (\<lambda>T4.
      bindE (setChild T4 child node direction) (\<lambda>T5.
      bindE (setParent T5 node child) (\<lambda>T6.
      bindE (Tree_getMax T6 child) (\<lambda>cm.
      bindE (setMax T6 child (Some cm)) (\<lambda>T7.
      bindE (Tree_getMax T7 node) (\<lambda>nm.
        setMax T7 node (Some nm))))))))))))))"

definition leftRotate :: "itree \<Rightarrow> nat option \<Rightarrow> error + itree" where
  "leftRotate T node = rotate T node LEFT"

definition rightRotate :: "itree \<Rightarrow> nat option \<Rightarrow> error + itree" where
  "rightRotate T node = rotate T node RIGHT"

text \<open>
  \<^verbatim>\<open>Tree.prototype._checkViolation\<close>: returns the store and the node at which the
  loop of \<^verbatim>\<open>insert\<close> goes on.
\<close>

definition checkViolation :: "itree \<Rightarrow> nat option \<Rightarrow> direction \<Rightarrow> error + itree \<times> nat option" where
  "checkViolation T node direction =
     bindE (getGrandfather T node) (\<lambda>gf.
     bindE (getChild T gf direction) (\<lambda>uncle.
     bindE (if uncle \<noteq> None then isRed T uncle else Inr False) (\<lambda>uncle_red.
     if uncle_red then
       bindE (getParent T node) (\<lambda>par.
       bindE (setColor T par BLACK) (\<lambda>T1.
       bindE (setColor T1 uncle BLACK) (\<lambda>T2.
       bindE (getGrandfather T2 node) (\<lambda>gf2.
       bindE (setColor T2 gf2 RED) (\<lambda>T3.
       bindE (getGrandfather T3 node) (\<lambda>gf3.
         Inr (T3, gf3)))))))
     else
       bindE (getParent T node) (\<lambda>par.
       bindE (getChild T par direction) (\<lambda>inner.
       bindE (if node = inner
              then bindE (if direction = RIGHT then leftRotate T par else rightRotate T par)
                     (\<lambda>T1. Inr (T1, par))
              else Inr (T, node)) (\<lambda>(T1, node1).
       bindE (getParent T1 node1) (\<lambda>par1.
       bindE (setColor T1 par1 BLACK) (\<lambda>T2.
       bindE (getGrandfather T2 node1) (\<lambda>gf2.
       bindE (setColor T2 gf2 RED) (\<lambda>T3.
       bindE (getGrandfather T3 node1) (\<lambda>gf3.
       bindE (if direction = RIGHT then rightRotate T3 gf3 else leftRotate T3 gf3) (\<lambda>T4.
         Inr (T4, node1)))))))))))))"

text \<open>
  The descent of \<^verbatim>\<open>Tree.prototype._insertNode\<close>:
  \<^verbatim>\<open>while (node != null) { parent = node; node = node.getChild(cmp(newNode.data, node.data)); }\<close>
  The result is the last \<^verbatim>\<open>parent\<close>.  A loop that does not end has no result (\<open>None\<close>).
\<close>

partial_function (option) insertNode_loop ::
  "itree \<Rightarrow> interval \<Rightarrow> nat option \<Rightarrow> nat option \<Rightarrow> (error + nat option) option" where
  "insertNode_loop T d parent node =
     (if node \<noteq> None then
        (case deref T node of Inl e \<Rightarrow> Some (Inl e) | Inr n \<Rightarrow>
         case getChild T node (t_comparator T d (n_data n)) of Inl e \<Rightarrow> Some (Inl e) | Inr c \<Rightarrow>
           insertNode_loop T d node c)
      else Some (Inr parent))"

declare insertNode_loop.simps [code]

text \<open>\<^verbatim>\<open>Tree.prototype._insertNode\<close>: returns the store and the new node.\<close>

definition insertNode :: "itree \<Rightarrow> interval \<Rightarrow> (error + itree \<times> nat option) option" where
  "insertNode T d =
     (let newNode = Some (length (t_nodes T));
          T0 = T\<lparr>t_nodes := t_nodes T @ [new_Node d]\<rparr> in
      case insertNode_loop T0 d None (t_root T0) of None \<Rightarrow> None
      | Some (Inl e) \<Rightarrow> Some (Inl e)
      | Some (Inr parent) \<Rightarrow>
        Some (bindE (setParent T0 newNode parent) (\<lambda>T1.
              bindE (if parent = None then Inr (T1\<lparr>t_root := newNode\<rparr>)
                     else bindE (deref T1 parent) (\<lambda>pn.
                       setChild T1 parent newNode (t_comparator T1 d (n_data pn)))) (\<lambda>T2.
                Inr (T2\<lparr>t_size := t_size T2 + 1\<rparr>, newNode)))))"

text \<open>
  The loop of \<^verbatim>\<open>Tree.prototype.insert\<close>: its condition
  \<^verbatim>\<open>node != this._root && node.getParent().isRed()\<close>, its body, and the loop.
\<close>

definition insert_cond :: "itree \<Rightarrow> nat option \<Rightarrow> error + bool" where
  "insert_cond T node =
     (if node \<noteq> t_root T then bindE (getParent T node) (\<lambda>par. isRed T par)
      else Inr False)"

definition insert_body :: "itree \<Rightarrow> nat option \<Rightarrow> error + itree \<times> nat option" where
  "insert_body T node =
     bindE (getParent T node) (\<lambda>par.
     bindE (getGrandfather T node) (\<lambda>gf.
     bindE (getChild T gf LEFT) (\<lambda>gl.
       checkViolation T node (if par = gl then RIGHT else LEFT))))"

partial_function (option) insert_loop :: "itree \<Rightarrow> nat option \<Rightarrow> (error + itree) option" where
  "insert_loop T node =
     (case insert_cond T node of Inl e \<Rightarrow> Some (Inl e)
      | Inr b \<Rightarrow>
        if b then (case insert_body T node of Inl e \<Rightarrow> Some (Inl e)
                   | Inr (T', node') \<Rightarrow> insert_loop T' node')
        else Some (Inr T))"

declare insert_loop.simps [code]

text \<open>
  \<^verbatim>\<open>Tree.prototype.insert\<close>.  The function has no \<^verbatim>\<open>return\<close> statement: a call
  evaluates to \<^verbatim>\<open>undefined\<close>.
\<close>

definition Tree_insert :: "itree \<Rightarrow> interval \<Rightarrow> (error + itree \<times> jsval) option" where
  "Tree_insert T d =
     (case insertNode T d of None \<Rightarrow> None
      | Some (Inl e) \<Rightarrow> Some (Inl e)
      | Some (Inr (T1, node)) \<Rightarrow>
      (case bindE (Tree_getMax T1 node) (\<lambda>m. setMax T1 node (Some m)) of
         Inl e \<Rightarrow> Some (Inl e)
       | Inr T2 \<Rightarrow>
       (case insert_loop T2 node of None \<Rightarrow> None
        | Some (Inl e) \<Rightarrow> Some (Inl e)
        | Some (Inr T3) \<Rightarrow>
            Some (bindE (setColor T3 (t_root T3) BLACK) (\<lambda>T4. Inr (T4, Undefined))))))"

text \<open>
  Inserting a sequence of intervals one after the other, as the loop of
  \<^verbatim>\<open>Calendar.prototype.setEvents\<close> and the tests do; an exception ends the run.
\<close>

fun insert_all :: "itree \<Rightarrow> interval list \<Rightarrow> (error + itree) option" where
  "insert_all T [] = Some (Inr T)"
| "insert_all T (d # ds) =
     (case Tree_insert T d of None \<Rightarrow> None
      | Some (Inl e) \<Rightarrow> Some (Inl e)
      | Some (Inr (T', v)) \<Rightarrow> insert_all T' ds)"

section \<open>Tree: traversal and queries\<close>

text \<open>
  \<^verbatim>\<open>Tree.prototype.minimum\<close> and \<^verbatim>\<open>maximum\<close>: \<^verbatim>\<open>node = node || this._root\<close>, then
  the loop \<^verbatim>\<open>while (node.getChild(d) != null) node = node.getChild(d)\<close>.
\<close>

partial_function (option) minimum_loop :: "itree \<Rightarrow> nat option \<Rightarrow> (error + nat option) option" where
  "minimum_loop T node =
     (case getChild T node LEFT of Inl e \<Rightarrow> Some (Inl e)
      | Inr c \<Rightarrow> if c \<noteq> None then minimum_loop T c else Some (Inr node))"

declare minimum_loop.simps [code]

definition minimum :: "itree \<Rightarrow> nat option \<Rightarrow> (error + nat option) option" where
  "minimum T node = minimum_loop T (if node \<noteq> None then node else t_root T)"

partial_function (option) maximum_loop :: "itree \<Rightarrow> nat option \<Rightarrow> (error + nat option) option" where
  "maximum_loop T node =
     (case getChild T node RIGHT of Inl e \<Rightarrow> Some (Inl e)
      | Inr c \<Rightarrow> if c \<noteq> None then maximum_loop T c else Some (Inr node))"

declare maximum_loop.simps [code]

definition maximum :: "itree \<Rightarrow> nat option \<Rightarrow> (error + nat option) option" where
  "maximum T node = maximum_loop T (if node \<noteq> None then node else t_root T)"

text \<open>
  \<^verbatim>\<open>Tree.prototype.successor\<close>: the loop
  \<^verbatim>\<open>while (parent && node == parent.getChild(Node.RIGHT)) { node = parent; parent = parent.getParent(); }\<close>
  and the method.  \<^verbatim>\<open>predecessor\<close> is its mirror image.
\<close>

partial_function (option) successor_loop ::
  "itree \<Rightarrow> nat option \<Rightarrow> nat option \<Rightarrow> (error + nat option) option" where
  "successor_loop T node parent =
     (if parent \<noteq> None then
        (case getChild T parent RIGHT of Inl e \<Rightarrow> Some (Inl e)
         | Inr c \<Rightarrow>
           if node = c then
             (case getParent T parent of Inl e \<Rightarrow> Some (Inl e)
              | Inr pp \<Rightarrow> successor_loop T parent pp)
           else Some (Inr parent))
      else Some (Inr parent))"

declare successor_loop.simps [code]

definition successor :: "itree \<Rightarrow> nat option \<Rightarrow> (error + nat option) option" where
  "successor T node =
     (case getChild T node RIGHT of Inl e \<Rightarrow> Some (Inl e)
      | Inr c \<Rightarrow>
        if c \<noteq> None then minimum T c
        else (case getParent T node of Inl e \<Rightarrow> Some (Inl e)
              | Inr parent \<Rightarrow> successor_loop T node parent))"

partial_function (option) predecessor_loop ::
  "itree \<Rightarrow> nat option \<Rightarrow> nat option \<Rightarrow> (error + nat option) option" where
  "predecessor_loop T node parent =
     (if parent \<noteq> None then
        (case getChild T parent LEFT of Inl e \<Rightarrow> Some (Inl e)
         | Inr c \<Rightarrow>
           if node = c then
             (case getParent T parent of Inl e \<Rightarrow> Some (Inl e)
              | Inr pp \<Rightarrow> predecessor_loop T parent pp)
           else Some (Inr parent))
      else Some (Inr parent))"

declare predecessor_loop.simps [code]

definition predecessor :: "itree \<Rightarrow> nat option \<Rightarrow> (error + nat option) option" where
  "predecessor T node =
     (case getChild T node LEFT of Inl e \<Rightarrow> Some (Inl e)
      | Inr c \<Rightarrow>
        if c \<noteq> None then maximum T c
        else (case getParent T node of Inl e \<Rightarrow> Some (Inl e)
              | Inr parent \<Rightarrow> predecessor_loop T node parent))"

text \<open>
  \<^verbatim>\<open>Tree.prototype.getOrderedData\<close>:
  \<^verbatim>\<open>node = node || this._root; node = this.minimum();\<close> and then the loop
  \<^verbatim>\<open>while (node != null) { data.push(node.data); node = this.successor(node); }\<close>.
  \<^verbatim>\<open>getOrdered\<close> pushes the node instead of its data, and
  \<^verbatim>\<open>getReverseOrderedData\<close> walks from \<^verbatim>\<open>this.maximum()\<close> with \<^verbatim>\<open>predecessor\<close>.
\<close>

partial_function (option) getOrderedData_loop ::
  "itree \<Rightarrow> nat option \<Rightarrow> interval list \<Rightarrow> (error + interval list) option" where
  "getOrderedData_loop T node data =
     (if node \<noteq> None then
        (case deref T node of Inl e \<Rightarrow> Some (Inl e)
         | Inr n \<Rightarrow>
           (case successor T node of None \<Rightarrow> None
            | Some (Inl e) \<Rightarrow> Some (Inl e)
            | Some (Inr nx) \<Rightarrow> getOrderedData_loop T nx (data @ [n_data n])))
      else Some (Inr data))"

declare getOrderedData_loop.simps [code]

definition getOrderedData :: "itree \<Rightarrow> nat option \<Rightarrow> (error + interval list) option" where
  "getOrderedData T node =
     (let node1 = (if node \<noteq> None then node else t_root T) in
      case minimum T None of None \<Rightarrow> None
      | Some (Inl e) \<Rightarrow> Some (Inl e)
      | Some (Inr node2) \<Rightarrow> getOrderedData_loop T node2 [])"

partial_function (option) getOrdered_loop ::
  "itree \<Rightarrow> nat option \<Rightarrow> nat option list \<Rightarrow> (error + nat option list) option" where
  "getOrdered_loop T node nodes =
     (if node \<noteq> None then
        (case successor T node of None \<Rightarrow> None
         | Some (Inl e) \<Rightarrow> Some (Inl e)
         | Some (Inr nx) \<Rightarrow> getOrdered_loop T nx (nodes @ [node]))
      else Some (Inr nodes))"

declare getOrdered_loop.simps [code]

definition getOrdered :: "itree \<Rightarrow> nat option \<Rightarrow> (error + nat option list) option" where
  "getOrdered T node =
     (let node1 = (if node \<noteq> None then node else t_root T) in
      case minimum T None of None \<Rightarrow> None
      | Some (Inl e) \<Rightarrow> Some (Inl e)
      | Some (Inr node2) \<Rightarrow> getOrdered_loop T node2 [])"

partial_function (option) getReverseOrderedData_loop ::
  "itree \<Rightarrow> nat option \<Rightarrow> interval list \<Rightarrow> (error + interval list) option" where
  "getReverseOrderedData_loop T node nodes =
     (if node \<noteq> None then
        (case deref T node of Inl e \<Rightarrow> Some (Inl e)
         | Inr n \<Rightarrow>
           (case predecessor T node of None \<Rightarrow> None
            | Some (Inl e) \<Rightarrow> Some (Inl e)
            | Some (Inr nx) \<Rightarrow> getReverseOrderedData_loop T nx (nodes @ [n_data n])))
      else Some (Inr nodes))"

declare getReverseOrderedData_loop.simps [code]

definition getReverseOrderedData :: "itree \<Rightarrow> nat option \<Rightarrow> (error + interval list) option" where
  "getReverseOrderedData T node =
     (let node1 = (if node \<noteq> None then node else t_root T) in
      case maximum T None of None \<Rightarrow> None
      | Some (Inl e) \<Rightarrow> Some (Inl e)
      | Some (Inr node2) \<Rightarrow> getReverseOrderedData_loop T node2 [])"

text \<open>
  \<^verbatim>\<open>Tree.prototype.searchInterval\<close>.  The variable \<^verbatim>\<open>result\<close> is assigned without
  \<^verbatim>\<open>var\<close> and so is global, but every call first binds it to a fresh array, and
  \<^verbatim>\<open>result.concat(this.searchInterval(...))\<close> reads its receiver before the recursive
  call runs and builds a fresh array: what a call returns is what it has collected
  itself.  The comparison \<^verbatim>\<open>left.getMax() >= interval.start\<close> converts a \<^verbatim>\<open>null\<close>
  maximum to 0.
\<close>

definition search_left :: "itree \<Rightarrow> interval \<Rightarrow> nat option \<Rightarrow> error + bool" where
  "search_left T interval lc =
     (if lc \<noteq> None then bindE (getMax T lc) (\<lambda>m. Inr (to_number m \<ge> ev_start interval))
      else Inr False)"

partial_function (option) searchInterval ::
  "itree \<Rightarrow> interval \<Rightarrow> nat option \<Rightarrow> (error + interval list) option" where
  "searchInterval T interval node0 =
     (let node = (if node0 \<noteq> None then node0 else t_root T) in
      case getChild T node LEFT of Inl e \<Rightarrow> Some (Inl e) | Inr lc \<Rightarrow>
      case search_left T interval lc of Inl e \<Rightarrow> Some (Inl e) | Inr go_left \<Rightarrow>
      Option.bind (if go_left then searchInterval T interval lc else Some (Inr []))
        (\<lambda>r1. case r1 of Inl e \<Rightarrow> Some (Inl e) | Inr result1 \<Rightarrow>
      case deref T node of Inl e \<Rightarrow> Some (Inl e) | Inr n \<Rightarrow>
      case getChild T node RIGHT of Inl e \<Rightarrow> Some (Inl e) | Inr rc \<Rightarrow>
      Option.bind (if rc \<noteq> None \<and> ev_start (n_data n) \<le> ev_end interval
                   then searchInterval T interval rc else Some (Inr []))
        (\<lambda>r2. case r2 of Inl e \<Rightarrow> Some (Inl e) | Inr result2 \<Rightarrow>
           Some (Inr ((if isColliding (n_data n) interval
                       then result1 @ [n_data n] else result1) @ result2)))))"

declare searchInterval.simps [code]

text \<open>\<^verbatim>\<open>Tree.prototype.getSize\<close>.\<close>

definition getSize :: "itree \<Rightarrow> nat" where
  "getSize T = t_size T"

section \<open>Events and their rendering\<close>

text \<open>
  \<^verbatim>\<open>new Event(event)\<close> copies \<^verbatim>\<open>id\<close>, \<^verbatim>\<open>start\<close> and \<^verbatim>\<open>end\<close> and sets
  \<^verbatim>\<open>this.duration = this.end - this.start\<close>; start and end are never written again.
\<close>

definition new_Event :: "interval \<Rightarrow> interval" where
  "new_Event event = \<lparr>ev_id = ev_id event, ev_start = ev_start event, ev_end = ev_end event\<rparr>"

definition duration :: "interval \<Rightarrow> int" where
  "duration event = ev_end event - ev_start event"

text \<open>
  What the browser contributes: \<^verbatim>\<open>Browser.BORDER_BOX\<close> and the inset of an event
  element (\<^verbatim>\<open>Event.getElementInset()\<close>, read from the style of a DOM element).
\<close>

record inset =
  borderLeft :: int
  borderRight :: int
  borderTop :: int
  borderBottom :: int
  paddingLeft :: int
  paddingRight :: int
  paddingTop :: int
  paddingBottom :: int

record env =
  BORDER_BOX :: bool
  elementInset :: inset

text \<open>
  JavaScript numbers are IEEE 754 doubles.  A finite double is a rational number, and an
  arithmetic operation returns the exact result rounded to the nearest double, ties to
  the even significand.  \<open>double\<close> is that rounding: \<open>exponent x\<close> is the largest \<open>e\<close>
  with \<open>2 ^ e \<le> \<bar>x\<bar>\<close>, a double has 53 significant bits, and below \<open>2 ^ -1022\<close> the
  doubles are the multiples of \<open>2 ^ -1074\<close>.  Results beyond the largest double
  (\<^verbatim>\<open>Infinity\<close> in JavaScript) are outside the model.  Start, end and the insets of
  an element are integers (of at most 53 bits), on which sums and differences are exact.
\<close>

definition pow2 :: "int \<Rightarrow> rat" where
  "pow2 e = (if 0 \<le> e then 2 ^ nat e else 1 / 2 ^ nat (- e))"

definition exponent :: "rat \<Rightarrow> int" where
  "exponent x =
     (let a = \<bar>x\<bar> in
      if 1 \<le> a then bitlen \<lfloor>a\<rfloor> - 1
      else (let k = bitlen \<lfloor>1 / a\<rfloor> - 1 in if a = pow2 (- k) then - k else - k - 1))"

definition round_half_even :: "rat \<Rightarrow> int" where
  "round_half_even y =
     (let f = \<lfloor>y\<rfloor>; d = y - of_int f in
      if d < 1 / 2 then f else if 1 / 2 < d then f + 1 else if even f then f else f + 1)"

definition double :: "rat \<Rightarrow> rat" where
  "double x =
     (if x = 0 then 0
      else (let ulp = pow2 (max (exponent x) (- 1022) - 52)
            in of_int (round_half_even (x / ulp)) * ulp))"

text \<open>\<^verbatim>\<open>Event.prototype._getElementWidth\<close> and \<^verbatim>\<open>_getElementHeight\<close>.\<close>

definition getElementWidth :: "env \<Rightarrow> rat \<Rightarrow> rat" where
  "getElementWidth en width =
     (if \<not> BORDER_BOX en then
        (let inset = elementInset en;
             width1 = double (width - of_int (borderLeft inset + borderRight inset))
         in double (width1 - of_int (paddingLeft inset + paddingRight inset)))
      else width)"

definition getElementHeight :: "env \<Rightarrow> int \<Rightarrow> int" where
  "getElementHeight en hgt =
     (if \<not> BORDER_BOX en then
        (let inset = elementInset en;
             hgt1 = hgt - (borderTop inset + borderBottom inset)
         in hgt1 - (paddingTop inset + paddingBottom inset))
      else hgt)"

text \<open>
  \<^verbatim>\<open>Event.prototype.render(width, level)\<close> writes \<^verbatim>\<open>width\<close>, \<^verbatim>\<open>height\<close>,
  \<^verbatim>\<open>left\<close> and \<^verbatim>\<open>top\<close> of the event and returns a \<^verbatim>\<open>div\<close> whose id and style
  carry the same four values.  The record below is that \<^verbatim>\<open>div\<close>.
\<close>

record html_event =
  h_id :: int
  h_top :: int
  h_left :: rat
  h_width :: rat
  h_height :: int

definition Event_render :: "env \<Rightarrow> interval \<Rightarrow> rat \<Rightarrow> nat \<Rightarrow> html_event" where
  "Event_render en event width level =
     \<lparr>h_id = ev_id event,
      h_top = ev_start event,
      h_left = double (double (of_nat level * width) + 10),
      h_width = getElementWidth en width,
      h_height = getElementHeight en (duration event)\<rparr>"

section \<open>Calendar\<close>

record options =
  o_timelineCssClass :: string
  o_eventsCssClass :: string
  o_height :: rat
  o_width :: rat
  o_from :: int
  o_to :: int

definition getDefaultOptions :: options where
  "getDefaultOptions = \<lparr>o_timelineCssClass = ''timeline'', o_eventsCssClass = ''events'',
      o_height = 720, o_width = 600, o_from = 9, o_to = 21\<rparr>"

text \<open>A bin of \<^verbatim>\<open>_addToBin\<close>: \<^verbatim>\<open>{ max : ..., events : [...] }\<close>.\<close>

record bin =
  b_max :: int
  b_events :: "interval list"

text \<open>
  The calendar: \<^verbatim>\<open>_events\<close> and \<^verbatim>\<open>_tree\<close> start as \<^verbatim>\<open>null\<close>,
  \<^verbatim>\<open>_renderedEvents\<close> is an object keyed by event id, and \<open>c_eventsHtml\<close> is the
  content of the events container (\<^verbatim>\<open>_eventsElement.innerHTML\<close>).
\<close>

record calendar =
  c_events :: "interval list option"
  c_renderedEvents :: "int \<rightharpoonup> bool"
  c_tree :: "itree option"
  c_options :: options
  c_eventsHtml :: "html_event list"

definition new_Calendar :: "options \<Rightarrow> calendar" where
  "new_Calendar opts = \<lparr>c_events = None, c_renderedEvents = Map.empty, c_tree = None,
      c_options = opts, c_eventsHtml = []\<rparr>"

text \<open>
  \<^verbatim>\<open>Calendar.prototype.setEvents\<close>.  A method of the calendar returns its outcome
  together with the calendar as the call leaves it; \<^verbatim>\<open>this._tree\<close> is assigned
  before the events are inserted and \<^verbatim>\<open>this._events\<close> after the traversal.
\<close>

definition setEvents ::
  "calendar \<Rightarrow> interval list \<Rightarrow> ((error + interval list) \<times> calendar) option" where
  "setEvents C events =
     (let tree0 = new_Tree Event_comparator in
      case insert_all tree0 (map new_Event events) of None \<Rightarrow> None
      | Some (Inl e) \<Rightarrow> Some (Inl e, C\<lparr>c_tree := Some tree0\<rparr>)
      | Some (Inr tree1) \<Rightarrow>
        (case getOrderedData tree1 None of None \<Rightarrow> None
         | Some (Inl e) \<Rightarrow> Some (Inl e, C\<lparr>c_tree := Some tree1\<rparr>)
         | Some (Inr ordered) \<Rightarrow>
             Some (Inr ordered, C\<lparr>c_tree := Some tree1, c_events := Some ordered\<rparr>)))"

text \<open>\<^verbatim>\<open>clear\<close>, \<^verbatim>\<open>isRendered\<close>, \<^verbatim>\<open>_setIsRendered\<close>, \<^verbatim>\<open>getCollisions\<close>.\<close>

definition clear :: "calendar \<Rightarrow> calendar" where
  "clear C = C\<lparr>c_eventsHtml := [], c_renderedEvents := Map.empty\<rparr>"

definition isRendered :: "calendar \<Rightarrow> interval \<Rightarrow> bool" where
  "isRendered C event = (c_renderedEvents C (ev_id event) = Some True)"

definition setIsRendered :: "calendar \<Rightarrow> interval \<Rightarrow> calendar" where
  "setIsRendered C event = C\<lparr>c_renderedEvents := (c_renderedEvents C)(ev_id event \<mapsto> True)\<rparr>"

definition getCollisions :: "calendar \<Rightarrow> interval \<Rightarrow> (error + interval list) option" where
  "getCollisions C event =
     (case c_tree C of None \<Rightarrow> Some (Inl TypeError) | Some T \<Rightarrow> searchInterval T event None)"

text \<open>
  \<^verbatim>\<open>Calendar.prototype._addToBin\<close>: the first bin with \<^verbatim>\<open>event.start >= bin.max\<close>
  takes the event, otherwise a new bin is pushed.
\<close>

fun addToBin :: "interval \<Rightarrow> bin list \<Rightarrow> bin list" where
  "addToBin event [] = [\<lparr>b_max = ev_end event, b_events = [event]\<rparr>]"
| "addToBin event (b # bins) =
     (if ev_start event \<ge> b_max b
      then b\<lparr>b_max := ev_end event, b_events := b_events b @ [event]\<rparr> # bins
      else b # addToBin event bins)"

text \<open>
  \<^verbatim>\<open>Calendar.prototype._renderEvents\<close>: every event of every bin is rendered with
  \<^verbatim>\<open>width = this._options.width / bins.length\<close> at the level of its bin.
\<close>

definition renderEvents :: "env \<Rightarrow> calendar \<Rightarrow> bin list \<Rightarrow> html_event list" where
  "renderEvents en C bins =
     concat (map (\<lambda>(level, b).
        map (\<lambda>event.
           Event_render en event (double (o_width (c_options C) / of_nat (length bins))) level)
          (b_events b)) (enumerate 0 bins))"

text \<open>\<^verbatim>\<open>binsByRef || []\<close>.\<close>

definition or_empty :: "bin list option \<Rightarrow> bin list" where
  "or_empty binsByRef = (case binsByRef of None \<Rightarrow> [] | Some bins \<Rightarrow> bins)"

text \<open>
  \<^verbatim>\<open>Calendar.prototype._render(events, binsByRef)\<close>: the loop over \<^verbatim>\<open>events\<close> with
  the recursive call on the collisions of an event that is not rendered yet.  The
  array \<^verbatim>\<open>binsByRef\<close> is shared with the caller; the model returns its content next
  to the collected html.  Without \<^verbatim>\<open>binsByRef\<close> every round of the loop starts on a
  new empty array.
\<close>

partial_function (option) render_rec ::
  "env \<Rightarrow> calendar \<Rightarrow> interval list \<Rightarrow> bin list option \<Rightarrow> html_event list \<Rightarrow>
     ((error + html_event list \<times> bin list option) \<times> calendar) option" where
  "render_rec en C events binsByRef html =
     (case events of
        [] \<Rightarrow> Some (Inr (html, binsByRef), C)
      | event # rest \<Rightarrow>
        if \<not> isRendered C event then
          (let C1 = setIsRendered C event;
               bins1 = addToBin event (or_empty binsByRef) in
           case getCollisions C1 event of None \<Rightarrow> None
           | Some (Inl e) \<Rightarrow> Some (Inl e, C1)
           | Some (Inr collisions) \<Rightarrow>
             Option.bind (render_rec en C1 collisions (Some bins1) [])
               (\<lambda>r. case r of
                   (Inl e, C2) \<Rightarrow> Some (Inl e, C2)
                 | (Inr (html1, bins2), C2) \<Rightarrow>
                     render_rec en C2 rest
                       (if binsByRef \<noteq> None then bins2 else None)
                       ((html @ html1) @ renderEvents en C2 (or_empty bins2))))
        else render_rec en C rest binsByRef html)"

declare render_rec.simps [code]

text \<open>\<^verbatim>\<open>Calendar.prototype.render\<close> and \<^verbatim>\<open>layOutDay\<close>.\<close>

definition render :: "env \<Rightarrow> calendar \<Rightarrow> ((error + unit) \<times> calendar) option" where
  "render en C =
     (case c_events C of
        None \<Rightarrow> Some (Inl NoEventsSet, C)
      | Some events \<Rightarrow>
        (case render_rec en (clear C) events None [] of None \<Rightarrow> None
         | Some (Inl e, C1) \<Rightarrow> Some (Inl e, C1)
         | Some (Inr (html, bins), C1) \<Rightarrow> Some (Inr (), C1\<lparr>c_eventsHtml := html\<rparr>)))"

definition layOutDay ::
  "env \<Rightarrow> calendar \<Rightarrow> interval list \<Rightarrow> ((error + interval list) \<times> calendar) option" where
  "layOutDay en C events =
     (case setEvents C events of None \<Rightarrow> None
      | Some (Inl e, C1) \<Rightarrow> Some (Inl e, C1)
      | Some (Inr events1, C1) \<Rightarrow>
        (case render en C1 of None \<Rightarrow> None
         | Some (Inl e, C2) \<Rightarrow> Some (Inl e, C2)
         | Some (Inr u, C2) \<Rightarrow> Some (Inr events1, C2)))"


section \<open>The properties that the claims state\<close>

text \<open>
  The tree that hangs below a reference, read off the store along the \<^verbatim>\<open>_left\<close> and
  \<^verbatim>\<open>_right\<close> links.  The first argument bounds the depth; a store of \<open>n\<close> nodes
  holds no tree deeper than \<open>n\<close>, so that \<open>the_tree\<close> finds every tree that is one.
\<close>

fun tree_of :: "nat \<Rightarrow> node list \<Rightarrow> nat option \<Rightarrow> node tree option" where
  "tree_of 0 h p = None"
| "tree_of (Suc k) h None = Some Leaf"
| "tree_of (Suc k) h (Some a) =
     (if a < length h then
        (case tree_of k h (n_left (h ! a)) of None \<Rightarrow> None
         | Some l \<Rightarrow>
           (case tree_of k h (n_right (h ! a)) of None \<Rightarrow> None
            | Some r \<Rightarrow> Some (Node l (h ! a) r)))
      else None)"

definition the_tree :: "itree \<Rightarrow> node tree option" where
  "the_tree T = tree_of (Suc (length (t_nodes T))) (t_nodes T) (t_root T)"

text \<open>
  The three red-black properties: the root is BLACK, no RED node has a RED child, and
  every path from the root to an absent child passes through the same number of BLACK
  nodes (\<open>black_counts\<close> lists that number for every such path, from left to right).
\<close>

fun red_root :: "node tree \<Rightarrow> bool" where
  "red_root Leaf = False"
| "red_root (Node l n r) = (n_color n = RED)"

definition root_black :: "node tree \<Rightarrow> bool" where
  "root_black t = (case t of Leaf \<Rightarrow> True | Node l n r \<Rightarrow> n_color n = BLACK)"

fun no_red_red :: "node tree \<Rightarrow> bool" where
  "no_red_red Leaf = True"
| "no_red_red (Node l n r) =
     ((n_color n = RED \<longrightarrow> \<not> red_root l \<and> \<not> red_root r) \<and> no_red_red l \<and> no_red_red r)"

fun black_counts :: "node tree \<Rightarrow> nat list" where
  "black_counts Leaf = [0]"
| "black_counts (Node l n r) =
     map (\<lambda>k. k + (if n_color n = BLACK then 1 else 0)) (black_counts l @ black_counts r)"

definition black_balanced :: "node tree \<Rightarrow> bool" where
  "black_balanced t \<longleftrightarrow> (\<forall>k \<in> set (black_counts t). k = hd (black_counts t))"

text \<open>
  The augmentation: \<^verbatim>\<open>_max\<close> of every node is the largest \<^verbatim>\<open>end\<close> among the node's
  own interval and the intervals of its subtree.
\<close>

fun max_end :: "node tree \<Rightarrow> int option" where
  "max_end Leaf = None"
| "max_end (Node l n r) =
     Some (fold max (map (\<lambda>m. ev_end (n_data m)) (inorder l @ inorder r)) (ev_end (n_data n)))"

fun max_ok :: "node tree \<Rightarrow> bool" where
  "max_ok Leaf = True"
| "max_ok (Node l n r) = (n_max n = max_end (Node l n r) \<and> max_ok l \<and> max_ok r)"

text \<open>
  The stored intervals that overlap a query, found by scanning all of them with the
  closed-interval test \<^verbatim>\<open>A.start <= B.end && A.end >= B.start\<close>.
\<close>

definition brute_force :: "interval list \<Rightarrow> interval \<Rightarrow> interval list" where
  "brute_force stored q =
     filter (\<lambda>a. ev_start a \<le> ev_end q \<and> ev_end a \<ge> ev_start q) stored"

text \<open>
  Insertion into a list ordered by start, behind every element that does not start
  later: the order in which the descent of \<^verbatim>\<open>_insertNode\<close> places equal starts.
\<close>

fun ins_after :: "interval \<Rightarrow> interval list \<Rightarrow> interval list" where
  "ins_after d [] = [d]"
| "ins_after d (x # xs) = (if ev_start d < ev_start x then d # x # xs else x # ins_after d xs)"

text \<open>
  A well-formed event: \<^verbatim>\<open>start\<close> is not negative and \<^verbatim>\<open>end\<close> is larger than \<^verbatim>\<open>start\<close>.
\<close>

definition well_formed :: "interval \<Rightarrow> bool" where
  "well_formed e \<longleftrightarrow> 0 \<le> ev_start e \<and> ev_start e < ev_end e"

text \<open>
  The \<^verbatim>\<open>div\<close> of an event in column \<open>columnIndex\<close> of \<open>columnCount\<close> columns, and
  the \<^verbatim>\<open>div\<close>s of a list of columns, column by column: the width is the total width
  divided by the number of columns, the left edge is the column index times that width
  plus 10, the top is the start and the height the difference of end and start; width
  and height lose the inset of the element where the browser has no border box.
\<close>

definition positioned :: "env \<Rightarrow> rat \<Rightarrow> nat \<Rightarrow> nat \<Rightarrow> interval \<Rightarrow> html_event" where
  "positioned en totalWidth columnCount columnIndex event =
     (let width = double (totalWidth / of_nat columnCount) in
      \<lparr>h_id = ev_id event,
       h_top = ev_start event,
       h_left = double (double (of_nat columnIndex * width) + 10),
       h_width = getElementWidth en width,
       h_height = getElementHeight en (ev_end event - ev_start event)\<rparr>)"

definition batch_html :: "env \<Rightarrow> rat \<Rightarrow> bin list \<Rightarrow> html_event list" where
  "batch_html en totalWidth bins =
     concat (map (\<lambda>columnIndex.
        map (positioned en totalWidth (length bins) columnIndex) (b_events (bins ! columnIndex)))
       [0..<length bins])"

text \<open>
  The columns of a layout.  \<open>render_bins\<close> is \<^verbatim>\<open>_render\<close> with the html left out:
  where \<^verbatim>\<open>_render\<close> appends the html of \<^verbatim>\<open>this._renderEvents(bins)\<close>, it appends
  \<^verbatim>\<open>bins\<close> itself, so that it returns the lists of bins that \<^verbatim>\<open>_render\<close> renders, one
  batch for every call of \<^verbatim>\<open>_renderEvents\<close>.  \<open>layout_bins\<close> are the batches of
  \<^verbatim>\<open>layOutDay\<close>.  The column index of an event in a batch is the index of the bin that
  holds it, the column count the number of bins.
\<close>

partial_function (option) render_bins ::
  "calendar \<Rightarrow> interval list \<Rightarrow> bin list option \<Rightarrow> bin list list \<Rightarrow>
     ((error + bin list list \<times> bin list option) \<times> calendar) option" where
  "render_bins C events binsByRef batches =
     (case events of
        [] \<Rightarrow> Some (Inr (batches, binsByRef), C)
      | event # rest \<Rightarrow>
        if \<not> isRendered C event then
          (let C1 = setIsRendered C event;
               bins1 = addToBin event (or_empty binsByRef) in
           case getCollisions C1 event of None \<Rightarrow> None
           | Some (Inl e) \<Rightarrow> Some (Inl e, C1)
           | Some (Inr collisions) \<Rightarrow>
             Option.bind (render_bins C1 collisions (Some bins1) [])
               (\<lambda>r. case r of
                   (Inl e, C2) \<Rightarrow> Some (Inl e, C2)
                 | (Inr (batches1, bins2), C2) \<Rightarrow>
                     render_bins C2 rest
                       (if binsByRef \<noteq> None then bins2 else None)
                       ((batches @ batches1) @ [or_empty bins2])))
        else render_bins C rest binsByRef batches)"

declare render_bins.simps [code]

definition layout_bins :: "calendar \<Rightarrow> interval list \<Rightarrow> bin list list option" where
  "layout_bins C events =
     (case setEvents C events of
        Some (Inr events1, C1) \<Rightarrow>
          (case render_bins (clear C1) events1 None [] of
             Some (Inr (batches, bins), C2) \<Rightarrow> Some batches
           | _ \<Rightarrow> None)
      | _ \<Rightarrow> None)"

text \<open>
  An event is placed in a list of columns when one of the columns holds it.  The events
  of a column do not overlap when each of them ends no later than every event that was
  added to the column after it starts.
\<close>

definition placed :: "bin list \<Rightarrow> interval \<Rightarrow> bool" where
  "placed bins e \<longleftrightarrow> (\<exists>b \<in> set bins. e \<in> set (b_events b))"

definition no_overlap_in_columns :: "bin list \<Rightarrow> bool" where
  "no_overlap_in_columns bins \<longleftrightarrow>
     (\<forall>b \<in> set bins. sorted_wrt (\<lambda>a c. ev_end a \<le> ev_start c) (b_events b))"


section \<open>The abstraction used by the proofs\<close>

text \<open>
  The store is related to a functional tree of labels.  The operations of the source
  are shown to transform the represented tree as the functions below say, and the
  invariants are then proved on those functions.
\<close>

type_synonym lab = "nat \<times> color \<times> interval"

text \<open>
  A tree of labels (handle, colour, data) and the store that represents it: \<open>repr h par t\<close>
  says that the nodes of \<open>t\<close> are in the store \<open>h\<close> with the colours and data of their
  labels, that their child links lead to the roots of their subtrees, and that their
  parent links lead back, \<open>par\<close> being the parent of the root.
\<close>

fun rootptr :: "lab tree \<Rightarrow> nat option" where
  "rootptr Leaf = None"
| "rootptr (Node l (a, c, d) r) = Some a"

fun repr :: "node list \<Rightarrow> nat option \<Rightarrow> lab tree \<Rightarrow> bool" where
  "repr h par Leaf = True"
| "repr h par (Node l (a, c, d) r) =
     (a < length h \<and> n_parent (h ! a) = par \<and> n_color (h ! a) = c \<and> n_data (h ! a) = d \<and>
      n_left (h ! a) = rootptr l \<and> n_right (h ! a) = rootptr r \<and>
      repr h (Some a) l \<and> repr h (Some a) r)"

definition addrs :: "lab tree \<Rightarrow> nat list" where
  "addrs t = map fst (inorder t)"

text \<open>
  A position in a tree is a list of frames, from the position up to the root: a frame
  records the node above and the subtree on its other side.  \<open>plug\<close> puts a subtree
  at the position, and \<open>repr_ctx h rt c p\<close> says that the store represents the frames
  of \<open>c\<close> below the root reference \<open>rt\<close>, with \<open>p\<close> the reference at the position.
\<close>

datatype frame = FL lab "lab tree" | FR "lab tree" lab

fun plug :: "frame list \<Rightarrow> lab tree \<Rightarrow> lab tree" where
  "plug [] s = s"
| "plug (FL x r # c) s = plug c (Node s x r)"
| "plug (FR l x # c) s = plug c (Node l x s)"

fun hole_parent :: "frame list \<Rightarrow> nat option" where
  "hole_parent [] = None"
| "hole_parent (FL (a, c, d) r # cs) = Some a"
| "hole_parent (FR l (a, c, d) # cs) = Some a"

fun repr_ctx :: "node list \<Rightarrow> nat option \<Rightarrow> frame list \<Rightarrow> nat option \<Rightarrow> bool" where
  "repr_ctx h rt [] p = (rt = p)"
| "repr_ctx h rt (FL (a, c, d) r # cs) p =
     (a < length h \<and> n_parent (h ! a) = hole_parent cs \<and> n_color (h ! a) = c \<and> n_data (h ! a) = d \<and>
      n_left (h ! a) = p \<and> n_right (h ! a) = rootptr r \<and>
      repr h (Some a) r \<and> repr_ctx h rt cs (Some a))"
| "repr_ctx h rt (FR l (a, c, d) # cs) p =
     (a < length h \<and> n_parent (h ! a) = hole_parent cs \<and> n_color (h ! a) = c \<and> n_data (h ! a) = d \<and>
      n_left (h ! a) = rootptr l \<and> n_right (h ! a) = p \<and>
      repr h (Some a) l \<and> repr_ctx h rt cs (Some a))"

fun faddrs :: "frame \<Rightarrow> nat list" where
  "faddrs (FL x r) = fst x # addrs r"
| "faddrs (FR l x) = addrs l @ [fst x]"

definition caddrs :: "frame list \<Rightarrow> nat list" where
  "caddrs c = concat (map faddrs c)"

text \<open>
  Stores that differ in the \<^verbatim>\<open>_max\<close> fields only represent the same trees.
\<close>

definition strip :: "node list \<Rightarrow> node list" where
  "strip h = map (\<lambda>n. n\<lparr>n_max := None\<rparr>) h"

definition max_equiv :: "node list \<Rightarrow> node list \<Rightarrow> bool" where
  "max_equiv h h' \<longleftrightarrow> strip h = strip h'"

text \<open>
  A reference is valid when it is \<^verbatim>\<open>null\<close> or a handle of the store.
\<close>

definition valid_ptr :: "node list \<Rightarrow> nat option \<Rightarrow> bool" where
  "valid_ptr h p = (case p of None \<Rightarrow> True | Some a \<Rightarrow> a < length h)"

definition valid_node :: "node list \<Rightarrow> nat \<Rightarrow> bool" where
  "valid_node h a \<longleftrightarrow> a < length h \<and> valid_ptr h (n_left (h ! a)) \<and> valid_ptr h (n_right (h ! a))"

text \<open>
  The two halves of \<^verbatim>\<open>_rotate\<close>: the relinking, and the update of the two maxima.
\<close>

definition fixmax :: "itree \<Rightarrow> nat option \<Rightarrow> nat option \<Rightarrow> error + itree" where
  "fixmax T child node =
      bindE (Tree_getMax T child) (\<lambda>cm.
      bindE (setMax T child (Some cm)) (\<lambda>T7.
      bindE (Tree_getMax T7 node) (\<lambda>nm.
        setMax T7 node (Some nm))))"

definition rotate_links :: "itree \<Rightarrow> nat option \<Rightarrow> direction \<Rightarrow> error + itree \<times> nat option" where
  "rotate_links T node direction =
     (let otherDirection = (if direction = RIGHT then LEFT else RIGHT) in
      bindE (getChild T node otherDirection) (\<lambda>child.
      if child = None then Inl ChildIsNull else
      bindE (getChild T child direction) (\<lambda>inner.
      bindE (setChild T node inner otherDirection) (\<lambda>T1.
      bindE (if inner \<noteq> None then setParent T1 inner node else Inr T1) (\<lambda>T2.
      bindE (getParent T2 node) (\<lambda>par.
      bindE (setParent T2 child par) (\<lambda>T3.
      bindE (if par = None then Inr (T3\<lparr>t_root := child\<rparr>)
             else bindE (getChild T3 par direction) (\<lambda>c.
               if node = c then setChild T3 par child direction
               else setChild T3 par child otherDirection)) (\<lambda>T4.
      bindE (setChild T4 child node direction) (\<lambda>T5.
      bindE (setParent T5 node child) (\<lambda>T6. Inr (T6, child)))))))))))"

text \<open>
  Colours of labels, and the loop of \<^verbatim>\<open>insert\<close> as a function on positions:
  \<open>fixup c s\<close> is the tree that the loop leaves when it starts at the subtree \<open>s\<close>
  (whose root is the current node) at position \<open>c\<close>.
\<close>

fun lcolor :: "lab \<Rightarrow> color" where "lcolor (a, c, d) = c"

fun setc :: "color \<Rightarrow> lab \<Rightarrow> lab" where "setc c' (a, c, d) = (a, c', d)"

fun root_red :: "lab tree \<Rightarrow> bool" where
  "root_red Leaf = False"
| "root_red (Node l x r) = (lcolor x = RED)"

fun paint_root :: "color \<Rightarrow> lab tree \<Rightarrow> lab tree" where
  "paint_root c Leaf = Leaf"
| "paint_root c (Node l x r) = Node l (setc c x) r"

fun flab :: "frame \<Rightarrow> lab" where
  "flab (FL x r) = x"
| "flab (FR l x) = x"

definition root_ok :: "frame list \<Rightarrow> bool" where
  "root_ok c \<longleftrightarrow> (c \<noteq> [] \<longrightarrow> lcolor (flab (last c)) \<noteq> RED)"

fun fixup :: "frame list \<Rightarrow> lab tree \<Rightarrow> lab tree" where
  "fixup [] s = s"
| "fixup [f] s = plug [f] s"
| "fixup (FL p sib # FL g U # cs) s =
     (if lcolor p = RED then
        (if root_red U then fixup cs (Node (Node s (setc BLACK p) sib) (setc RED g) (paint_root BLACK U))
         else plug cs (Node s (setc BLACK p) (Node sib (setc RED g) U)))
      else plug (FL p sib # FL g U # cs) s)"
| "fixup (FR sib p # FL g U # cs) s =
     (if lcolor p = RED then
        (if root_red U then fixup cs (Node (Node sib (setc BLACK p) s) (setc RED g) (paint_root BLACK U))
         else (case s of Leaf \<Rightarrow> plug (FR sib p # FL g U # cs) s
               | Node l z r \<Rightarrow> plug cs (Node (Node sib p l) (setc BLACK z) (Node r (setc RED g) U))))
      else plug (FR sib p # FL g U # cs) s)"
| "fixup (FR sib p # FR U g # cs) s =
     (if lcolor p = RED then
        (if root_red U then fixup cs (Node (paint_root BLACK U) (setc RED g) (Node sib (setc BLACK p) s))
         else plug cs (Node (Node U (setc RED g) sib) (setc BLACK p) s))
      else plug (FR sib p # FR U g # cs) s)"
| "fixup (FL p sib # FR U g # cs) s =
     (if lcolor p = RED then
        (if root_red U then fixup cs (Node (paint_root BLACK U) (setc RED g) (Node s (setc BLACK p) sib))
         else (case s of Leaf \<Rightarrow> plug (FL p sib # FR U g # cs) s
               | Node l z r \<Rightarrow> plug cs (Node (Node U (setc RED g) l) (setc BLACK z) (Node r p sib))))
      else plug (FL p sib # FR U g # cs) s)"

text \<open>
  The descent of \<^verbatim>\<open>_insertNode\<close>: the position at which the comparator places new data.
\<close>

fun ldata :: "lab \<Rightarrow> interval" where "ldata (a, c, d) = d"

fun path :: "(interval \<Rightarrow> interval \<Rightarrow> direction) \<Rightarrow> interval \<Rightarrow> lab tree \<Rightarrow> frame list" where
  "path cmp d Leaf = []"
| "path cmp d (Node l x r) =
     (if cmp d (ldata x) = LEFT then path cmp d l @ [FL x r] else path cmp d r @ [FR l x])"

text \<open>
  The handles and data of a tree in order, and of the part of a tree before and after
  a position.
\<close>

definition kl :: "lab \<Rightarrow> nat \<times> interval" where
  "kl x = (fst x, ldata x)"

definition keys :: "lab tree \<Rightarrow> (nat \<times> interval) list" where
  "keys t = map kl (inorder t)"

fun before :: "frame list \<Rightarrow> (nat \<times> interval) list" where
  "before [] = []"
| "before (FL x r # c) = before c"
| "before (FR l x # c) = before c @ keys l @ [kl x]"

fun after :: "frame list \<Rightarrow> (nat \<times> interval) list" where
  "after [] = []"
| "after (FL x r # c) = kl x # keys r @ after c"
| "after (FR l x # c) = after c"

text \<open>
  One call of \<^verbatim>\<open>insert\<close> on a tree of labels; \<open>z\<close> is the handle of the new node.
\<close>

definition ins :: "(interval \<Rightarrow> interval \<Rightarrow> direction) \<Rightarrow> nat \<Rightarrow> interval \<Rightarrow> lab tree \<Rightarrow> lab tree" where
  "ins cmp z d t = paint_root BLACK (fixup (path cmp d t) (Node Leaf (z, RED, d) Leaf))"

text \<open>
  The red-black invariants on trees of labels and on positions: \<open>cinv c n\<close> holds when
  every subtree of black height \<open>n\<close> that satisfies the invariants can be plugged in at
  \<open>c\<close>, up to the colour of its root.
\<close>

fun bh :: "lab tree \<Rightarrow> nat" where
  "bh Leaf = 0"
| "bh (Node l x r) = bh l + (if lcolor x = RED then 0 else 1)"

fun invh :: "lab tree \<Rightarrow> bool" where
  "invh Leaf = True"
| "invh (Node l x r) = (bh l = bh r \<and> invh l \<and> invh r)"

fun invc :: "lab tree \<Rightarrow> bool" where
  "invc Leaf = True"
| "invc (Node l x r) = ((lcolor x = RED \<longrightarrow> \<not> root_red l \<and> \<not> root_red r) \<and> invc l \<and> invc r)"

fun frame_red :: "frame list \<Rightarrow> bool" where
  "frame_red [] = False"
| "frame_red (f # c) = (lcolor (flab f) = RED)"

fun cinv :: "frame list \<Rightarrow> nat \<Rightarrow> bool" where
  "cinv [] n = True"
| "cinv (FL x r # c) n =
     (invc r \<and> invh r \<and> bh r = n \<and> (lcolor x = RED \<longrightarrow> \<not> root_red r \<and> \<not> frame_red c) \<and>
      cinv c (n + (if lcolor x = RED then 0 else 1)))"
| "cinv (FR l x # c) n =
     (invc l \<and> invh l \<and> bh l = n \<and> (lcolor x = RED \<longrightarrow> \<not> root_red l \<and> \<not> frame_red c) \<and>
      cinv c (n + (if lcolor x = RED then 0 else 1)))"

text \<open>
  The data of a tree in order, and a run of insertions with consecutive handles.
\<close>

definition dl :: "lab tree \<Rightarrow> interval list" where
  "dl t = map snd (keys t)"

fun ins_seq :: "(interval \<Rightarrow> interval \<Rightarrow> direction) \<Rightarrow> nat \<Rightarrow> interval list \<Rightarrow> lab tree \<Rightarrow> lab tree" where
  "ins_seq cmp z [] t = t"
| "ins_seq cmp z (d # ds) t = ins_seq cmp (Suc z) ds (ins cmp z d t)"

text \<open>
  The invariant of the store: it represents a red-black tree whose handles are distinct.
\<close>

definition rbt_repr :: "itree \<Rightarrow> lab tree \<Rightarrow> bool" where
  "rbt_repr T t \<longleftrightarrow> repr (t_nodes T) None t \<and> t_root T = rootptr t \<and> distinct (addrs t) \<and>
     \<not> root_red t \<and> invc t \<and> invh t"

text \<open>
  The moves of \<^verbatim>\<open>successor\<close> on positions: \<open>climb\<close> goes up to the first node that
  has the position in its left subtree, \<open>lmost\<close> goes down to the leftmost node.
\<close>

fun climb :: "frame list \<Rightarrow> lab tree \<Rightarrow> (frame list \<times> lab tree) option" where
  "climb [] s = None"
| "climb (FL x r # cs) s = Some (cs, Node s x r)"
| "climb (FR l x # cs) s = climb cs (Node l x s)"

fun lmost :: "frame list \<Rightarrow> lab tree \<Rightarrow> frame list \<times> lab tree" where
  "lmost c Leaf = (c, Leaf)"
| "lmost c (Node l x r) = (if l = Leaf then (c, Node l x r) else lmost (FL x r # c) l)"

definition zip_ok :: "itree \<Rightarrow> frame list \<Rightarrow> lab tree \<Rightarrow> bool" where
  "zip_ok T c s \<longleftrightarrow> repr_ctx (t_nodes T) (t_root T) c (rootptr s) \<and>
     repr (t_nodes T) (hole_parent c) s \<and> distinct (caddrs c @ addrs s)"

definition nxt :: "frame list \<Rightarrow> lab tree \<Rightarrow> (frame list \<times> lab tree) option" where
  "nxt c s = (case s of Leaf \<Rightarrow> None
     | Node l x r \<Rightarrow> if r \<noteq> Leaf then Some (lmost (FR l x # c) r) else climb c s)"

text \<open>
  The tree of nodes that \<open>the_tree\<close> reads off a store that represents \<open>t\<close>.
\<close>

definition erase :: "node list \<Rightarrow> lab tree \<Rightarrow> node tree" where
  "erase h t = map_tree (\<lambda>x. h ! fst x) t"

text \<open>
  The invariant of the bins of \<^verbatim>\<open>_render\<close>: the events of a bin do not overlap, and
  none of them ends after \<^verbatim>\<open>max\<close>.  \<open>mu\<close> counts the events of the tree that are not
  rendered yet; it decreases with every recursive call of \<^verbatim>\<open>_render\<close>.
  \<open>render_post\<close> is what a call of \<^verbatim>\<open>_render\<close> guarantees: \<open>batches\<close> are the
  lists of bins that it has passed to \<^verbatim>\<open>_renderEvents\<close>.
\<close>

definition bins_ok :: "bin list \<Rightarrow> bool" where
  "bins_ok bins \<longleftrightarrow> (\<forall>b \<in> set bins.
      sorted_wrt (\<lambda>a c. ev_end a \<le> ev_start c) (b_events b) \<and>
      (\<forall>a \<in> set (b_events b). ev_end a \<le> b_max b))"

definition bins_inv :: "interval set \<Rightarrow> bool \<Rightarrow> bin list \<Rightarrow> bool" where
  "bins_inv S WF bins \<longleftrightarrow> (\<forall>e. placed bins e \<longrightarrow> e \<in> S) \<and> (WF \<longrightarrow> bins_ok bins)"

definition mu :: "interval list \<Rightarrow> calendar \<Rightarrow> nat" where
  "mu ds C = card {i \<in> ev_id ` set ds. c_renderedEvents C i \<noteq> Some True}"

definition render_post ::
  "itree \<Rightarrow> interval set \<Rightarrow> bool \<Rightarrow> bool \<Rightarrow> env \<Rightarrow> calendar \<Rightarrow> interval list \<Rightarrow> bin list option \<Rightarrow>
   html_event list \<Rightarrow> html_event list \<Rightarrow> bin list option \<Rightarrow> calendar \<Rightarrow> bin list list \<Rightarrow> bool" where
  "render_post T S WF INJ en C events bref html html' bref' C' batches \<longleftrightarrow>
     c_tree C' = Some T \<and> c_options C' = c_options C \<and> c_events C' = c_events C \<and>
     (\<forall>i. c_renderedEvents C i = Some True \<longrightarrow> c_renderedEvents C' i = Some True) \<and>
     (bref = None \<longleftrightarrow> bref' = None) \<and> bins_inv S WF (or_empty bref') \<and>
     (\<forall>e. placed (or_empty bref) e \<longrightarrow> placed (or_empty bref') e) \<and>
     (\<forall>e \<in> set events. isRendered C' e) \<and>
     html' = html @ concat (map (batch_html en (o_width (c_options C))) batches) \<and>
     (\<forall>b \<in> set batches. bins_inv S WF b) \<and>
     (INJ \<longrightarrow> (\<forall>e \<in> S. isRendered C' e \<and> \<not> isRendered C e \<longrightarrow>
         placed (or_empty bref') e \<or> (\<exists>b \<in> set batches. placed b e)))"

text \<open>
  The moves of \<^verbatim>\<open>predecessor\<close> on positions, mirror images of \<open>climb\<close> and
  \<open>lmost\<close>.
\<close>

fun climbR :: "frame list \<Rightarrow> lab tree \<Rightarrow> (frame list \<times> lab tree) option" where
  "climbR [] s = None"
| "climbR (FR l x # cs) s = Some (cs, Node l x s)"
| "climbR (FL x r # cs) s = climbR cs (Node s x r)"

fun rmost :: "frame list \<Rightarrow> lab tree \<Rightarrow> frame list \<times> lab tree" where
  "rmost c Leaf = (c, Leaf)"
| "rmost c (Node l x r) = (if r = Leaf then (c, Node l x r) else rmost (FR l x # c) r)"

definition prv :: "frame list \<Rightarrow> lab tree \<Rightarrow> (frame list \<times> lab tree) option" where
  "prv c s = (case s of Leaf \<Rightarrow> None
     | Node l x r \<Rightarrow> if l \<noteq> Leaf then Some (rmost (FL x r # c) l) else climbR c s)"


section \<open>Lemmas\<close>

lemma addrs_simps [simp]:
  "addrs Leaf = []"
  "addrs (Node l x r) = addrs l @ fst x # addrs r"
  by (simp_all add: addrs_def)

lemma caddrs_simps [simp]:
  "caddrs [] = []"
  "caddrs (f # c) = faddrs f @ caddrs c"
  by (simp_all add: caddrs_def)

lemma set_addrs_plug: "set (addrs (plug c s)) = set (caddrs c) \<union> set (addrs s)"
  by (induction c s rule: plug.induct) auto

lemma distinct_addrs_plug:
  "distinct (addrs (plug c s)) \<longleftrightarrow> distinct (caddrs c @ addrs s)"
  by (induction c s rule: plug.induct) (auto simp: set_addrs_plug)

lemma repr_bound: "repr h par t \<Longrightarrow> a \<in> set (addrs t) \<Longrightarrow> a < length h"
  by (induction h par t rule: repr.induct) auto

lemma repr_ctx_bound: "repr_ctx h rt c p \<Longrightarrow> a \<in> set (caddrs c) \<Longrightarrow> a < length h"
  by (induction h rt c p rule: repr_ctx.induct) (auto dest: repr_bound)

lemma repr_frame:
  "a \<notin> set (addrs t) \<Longrightarrow> repr (h[a := n]) par t = repr h par t"
  by (induction h par t rule: repr.induct) auto

lemma repr_ctx_frame:
  "a \<notin> set (caddrs c) \<Longrightarrow> repr_ctx (h[a := n]) rt c p = repr_ctx h rt c p"
  by (induction h rt c p rule: repr_ctx.induct) (auto simp: repr_frame)

lemma repr_append:
  "repr h par t \<Longrightarrow> repr (h @ hs) par t"
  by (induction h par t rule: repr.induct) (auto simp: nth_append)

lemma repr_ctx_append:
  "repr_ctx h rt c p \<Longrightarrow> repr_ctx (h @ hs) rt c p"
  by (induction h rt c p rule: repr_ctx.induct) (auto simp: nth_append repr_append)

lemma deref_Some [simp]:
  "a < length (t_nodes T) \<Longrightarrow> deref T (Some a) = Inr (t_nodes T ! a)"
  by (simp add: deref_def)

lemma deref_None [simp]: "deref T None = Inl TypeError"
  by (simp add: deref_def)

lemma modify_Some [simp]:
  "a < length (t_nodes T) \<Longrightarrow>
   modify T (Some a) f = Inr (T\<lparr>t_nodes := (t_nodes T)[a := f (t_nodes T ! a)]\<rparr>)"
  by (simp add: modify_def)

lemma bindE_simps [simp]:
  "bindE (Inl e) f = Inl e"
  "bindE (Inr v) f = f v"
  by (simp_all add: bindE_def)

lemmas node_ops = getChild_def setChild_def getParent_def setParent_def getMax_def setMax_def
  isRed_def setColor_def getGrandfather_def Tree_getMax_def

lemma rootptr_notin: "a \<notin> set (addrs t) \<Longrightarrow> rootptr t \<noteq> Some a"
  by (cases t) auto

lemma rootptr_notin': "a \<notin> set (addrs t) \<Longrightarrow> Some a \<noteq> rootptr t"
  by (cases t) auto

lemma max_equiv_refl [simp]: "max_equiv h h"
  by (simp add: max_equiv_def)

lemma max_equiv_trans: "max_equiv h h' \<Longrightarrow> max_equiv h' h'' \<Longrightarrow> max_equiv h h''"
  by (simp add: max_equiv_def)

lemma max_equiv_length: "max_equiv h h' \<Longrightarrow> length h' = length h"
  unfolding max_equiv_def strip_def by (metis length_map)

lemma max_equiv_upd: "max_equiv h (h[a := (h ! a)\<lparr>n_max := m\<rparr>])"
  unfolding max_equiv_def strip_def
proof (rule nth_equalityI)
  fix i assume "i < length (map (\<lambda>n. n\<lparr>n_max := None\<rparr>) h)"
  then show "map (\<lambda>n. n\<lparr>n_max := None\<rparr>) h ! i =
      map (\<lambda>n. n\<lparr>n_max := None\<rparr>) (h[a := (h ! a)\<lparr>n_max := m\<rparr>]) ! i"
    by (cases "i = a") simp_all
qed simp

lemma repr_strip: "repr (strip h) par t = repr h par t"
  by (induction h par t rule: repr.induct) (auto simp: strip_def)

lemma repr_ctx_strip: "repr_ctx (strip h) rt c p = repr_ctx h rt c p"
  by (induction h rt c p rule: repr_ctx.induct) (auto simp: repr_strip, auto simp: strip_def)

lemma repr_max_equiv: "max_equiv h h' \<Longrightarrow> repr h par t \<Longrightarrow> repr h' par t"
  unfolding max_equiv_def by (metis repr_strip)

lemma repr_ctx_max_equiv: "max_equiv h h' \<Longrightarrow> repr_ctx h rt c p \<Longrightarrow> repr_ctx h' rt c p"
  unfolding max_equiv_def by (metis repr_ctx_strip)

lemma Tree_getMax_ok:
  "valid_node (t_nodes T) a \<Longrightarrow> \<exists>m. Tree_getMax T (Some a) = Inr m"
  by (auto simp: valid_node_def valid_ptr_def node_ops split: option.splits)

lemma update_max_ok:
  assumes "valid_node (t_nodes T) a"
  shows "\<exists>T'. bindE (Tree_getMax T (Some a)) (\<lambda>m. setMax T (Some a) (Some m)) = Inr T' \<and>
     max_equiv (t_nodes T) (t_nodes T') \<and> t_root T' = t_root T \<and>
     t_comparator T' = t_comparator T \<and> t_size T' = t_size T"
proof -
  from Tree_getMax_ok[OF assms] obtain m where "Tree_getMax T (Some a) = Inr m" by blast
  moreover have "a < length (t_nodes T)" using assms by (simp add: valid_node_def)
  ultimately show ?thesis by (simp add: setMax_def max_equiv_upd)
qed

lemma valid_node_strip: "valid_node (strip h) a = valid_node h a"
  by (auto simp: valid_node_def valid_ptr_def strip_def split: option.splits)

lemma valid_node_max_equiv: "max_equiv h h' \<Longrightarrow> valid_node h a \<Longrightarrow> valid_node h' a"
  unfolding max_equiv_def by (metis valid_node_strip)

lemma bindE_assoc: "bindE (bindE m f) g = bindE m (\<lambda>x. bindE (f x) g)"
  by (cases m) simp_all

lemma fixmax_ok:
  assumes "valid_node (t_nodes T) a" "valid_node (t_nodes T) b"
  shows "\<exists>T'. fixmax T (Some a) (Some b) = Inr T' \<and>
     max_equiv (t_nodes T) (t_nodes T') \<and> t_root T' = t_root T \<and>
     t_comparator T' = t_comparator T \<and> t_size T' = t_size T"
proof -
  from update_max_ok[OF assms(1)] obtain T1 where
    1: "bindE (Tree_getMax T (Some a)) (\<lambda>m. setMax T (Some a) (Some m)) = Inr T1"
       "max_equiv (t_nodes T) (t_nodes T1)" "t_root T1 = t_root T"
       "t_comparator T1 = t_comparator T" "t_size T1 = t_size T" by blast
  have "valid_node (t_nodes T1) b" using 1(2) assms(2) by (rule valid_node_max_equiv)
  from update_max_ok[OF this] obtain T2 where
    2: "bindE (Tree_getMax T1 (Some b)) (\<lambda>m. setMax T1 (Some b) (Some m)) = Inr T2"
       "max_equiv (t_nodes T1) (t_nodes T2)" "t_root T2 = t_root T1"
       "t_comparator T2 = t_comparator T1" "t_size T2 = t_size T1" by blast
  have "fixmax T (Some a) (Some b) =
      bindE (bindE (Tree_getMax T (Some a)) (\<lambda>m. setMax T (Some a) (Some m)))
        (\<lambda>T7. bindE (Tree_getMax T7 (Some b)) (\<lambda>m. setMax T7 (Some b) (Some m)))"
    by (simp add: fixmax_def bindE_assoc)
  also have "\<dots> = Inr T2" using 1(1) 2(1) by simp
  finally show ?thesis using 1 2 max_equiv_trans by auto
qed

lemma bindE_if: "bindE (if b then x else y) f = (if b then bindE x f else bindE y f)"
  by simp

lemma rotate_split:
  "rotate T node direction =
     bindE (rotate_links T node direction) (\<lambda>(T6, child). fixmax T6 child node)"
  unfolding rotate_def rotate_links_def fixmax_def Let_def
  by (simp add: bindE_assoc bindE_if cong: if_cong)

lemmas link_ops = getChild_def setChild_def getParent_def setParent_def

lemma rotate_links_LEFT:
  assumes "repr_ctx (t_nodes T) (t_root T) c (Some x)"
      and "repr (t_nodes T) (hole_parent c) (Node A (x,cx,dx) (Node B (y,cy,dy) C))"
      and "distinct (caddrs c @ addrs (Node A (x,cx,dx) (Node B (y,cy,dy) C)))"
  shows "\<exists>T'. rotate_links T (Some x) LEFT = Inr (T', Some y) \<and> repr_ctx (t_nodes T') (t_root T') c (Some y) \<and>
      repr (t_nodes T') (hole_parent c) (Node (Node A (x,cx,dx) B) (y,cy,dy) C) \<and>
      length (t_nodes T') = length (t_nodes T) \<and> t_comparator T' = t_comparator T \<and>
      t_size T' = t_size T"
proof (cases c)
  case Nil
  show ?thesis
  proof (cases B)
    case Leaf
    with Nil assms show ?thesis
      by (simp add: rotate_links_def link_ops repr_frame rootptr_notin rootptr_notin')
  next
    case (Node Bl b Br)
    obtain ba bc bd where b: "b = (ba, bc, bd)" by (cases b) auto
    with Node Nil assms show ?thesis
      by (simp add: rotate_links_def link_ops repr_frame rootptr_notin rootptr_notin')
  qed
next
  case (Cons f cs)
  show ?thesis
  proof (cases f)
    case (FL p r)
    obtain pa pc pd where p: "p = (pa, pc, pd)" by (cases p) auto
    show ?thesis
  proof (cases B)
    case Leaf
    with Cons FL p assms show ?thesis
      by (simp add: rotate_links_def link_ops repr_frame repr_ctx_frame rootptr_notin rootptr_notin')
  next
    case (Node Bl b Br)
    obtain ba bc bd where b: "b = (ba, bc, bd)" by (cases b) auto
    with Node Cons FL p assms show ?thesis
      by (simp add: rotate_links_def link_ops repr_frame repr_ctx_frame rootptr_notin rootptr_notin')
  qed
  next
    case (FR l p)
    obtain pa pc pd where p: "p = (pa, pc, pd)" by (cases p) auto
    show ?thesis
  proof (cases B)
    case Leaf
    with Cons FR p assms show ?thesis
      by (simp add: rotate_links_def link_ops repr_frame repr_ctx_frame rootptr_notin rootptr_notin')
  next
    case (Node Bl b Br)
    obtain ba bc bd where b: "b = (ba, bc, bd)" by (cases b) auto
    with Node Cons FR p assms show ?thesis
      by (simp add: rotate_links_def link_ops repr_frame repr_ctx_frame rootptr_notin rootptr_notin')
  qed
  qed
qed

lemma rotate_links_RIGHT:
  assumes "repr_ctx (t_nodes T) (t_root T) c (Some x)"
      and "repr (t_nodes T) (hole_parent c) (Node (Node A (y,cy,dy) B) (x,cx,dx) C)"
      and "distinct (caddrs c @ addrs (Node (Node A (y,cy,dy) B) (x,cx,dx) C))"
  shows "\<exists>T'. rotate_links T (Some x) RIGHT = Inr (T', Some y) \<and> repr_ctx (t_nodes T') (t_root T') c (Some y) \<and>
      repr (t_nodes T') (hole_parent c) (Node A (y,cy,dy) (Node B (x,cx,dx) C)) \<and>
      length (t_nodes T') = length (t_nodes T) \<and> t_comparator T' = t_comparator T \<and>
      t_size T' = t_size T"
proof (cases c)
  case Nil
  show ?thesis
  proof (cases B)
    case Leaf
    with Nil assms show ?thesis
      by (simp add: rotate_links_def link_ops repr_frame rootptr_notin rootptr_notin')
  next
    case (Node Bl b Br)
    obtain ba bc bd where b: "b = (ba, bc, bd)" by (cases b) auto
    with Node Nil assms show ?thesis
      by (simp add: rotate_links_def link_ops repr_frame rootptr_notin rootptr_notin')
  qed
next
  case (Cons f cs)
  show ?thesis
  proof (cases f)
    case (FL p r)
    obtain pa pc pd where p: "p = (pa, pc, pd)" by (cases p) auto
    show ?thesis
  proof (cases B)
    case Leaf
    with Cons FL p assms show ?thesis
      by (simp add: rotate_links_def link_ops repr_frame repr_ctx_frame rootptr_notin rootptr_notin')
  next
    case (Node Bl b Br)
    obtain ba bc bd where b: "b = (ba, bc, bd)" by (cases b) auto
    with Node Cons FL p assms show ?thesis
      by (simp add: rotate_links_def link_ops repr_frame repr_ctx_frame rootptr_notin rootptr_notin')
  qed
  next
    case (FR l p)
    obtain pa pc pd where p: "p = (pa, pc, pd)" by (cases p) auto
    show ?thesis
  proof (cases B)
    case Leaf
    with Cons FR p assms show ?thesis
      by (simp add: rotate_links_def link_ops repr_frame repr_ctx_frame rootptr_notin rootptr_notin')
  next
    case (Node Bl b Br)
    obtain ba bc bd where b: "b = (ba, bc, bd)" by (cases b) auto
    with Node Cons FR p assms show ?thesis
      by (simp add: rotate_links_def link_ops repr_frame repr_ctx_frame rootptr_notin rootptr_notin')
  qed
  qed
qed

lemma repr_rootptr_bound: "repr h par t \<Longrightarrow> rootptr t = Some b \<Longrightarrow> b < length h"
  by (cases t) auto

lemma repr_valid_node: "repr h par (Node l (a, c, d) r) \<Longrightarrow> valid_node h a"
  by (auto simp: valid_node_def valid_ptr_def dest: repr_rootptr_bound split: option.splits)

lemma rotate_LEFT:
  assumes "repr_ctx (t_nodes T) (t_root T) c (Some x)"
      and "repr (t_nodes T) (hole_parent c) (Node A (x,cx,dx) (Node B (y,cy,dy) C))"
      and "distinct (caddrs c @ addrs (Node A (x,cx,dx) (Node B (y,cy,dy) C)))"
  shows "\<exists>T'. rotate T (Some x) LEFT = Inr T' \<and> repr_ctx (t_nodes T') (t_root T') c (Some y) \<and>
      repr (t_nodes T') (hole_parent c) (Node (Node A (x,cx,dx) B) (y,cy,dy) C) \<and>
      length (t_nodes T') = length (t_nodes T) \<and> t_comparator T' = t_comparator T \<and>
      t_size T' = t_size T"
proof -
  from rotate_links_LEFT[OF assms] obtain T1 where 1:
    "rotate_links T (Some x) LEFT = Inr (T1, Some y)"
    "repr_ctx (t_nodes T1) (t_root T1) c (Some y)"
    "repr (t_nodes T1) (hole_parent c) (Node (Node A (x,cx,dx) B) (y,cy,dy) C)"
    "length (t_nodes T1) = length (t_nodes T)" "t_comparator T1 = t_comparator T"
    "t_size T1 = t_size T" by blast
  have vy: "valid_node (t_nodes T1) y" using 1(3) by (rule repr_valid_node)
  have "repr (t_nodes T1) (Some y) (Node A (x,cx,dx) B)" using 1(3) by simp
  then have vx: "valid_node (t_nodes T1) x" by (rule repr_valid_node)
  from fixmax_ok[OF vy vx] obtain T2 where 2:
    "fixmax T1 (Some y) (Some x) = Inr T2" "max_equiv (t_nodes T1) (t_nodes T2)"
    "t_root T2 = t_root T1" "t_comparator T2 = t_comparator T1" "t_size T2 = t_size T1"
    by blast
  have "rotate T (Some x) LEFT = Inr T2" using 1(1) 2(1) by (simp add: rotate_split)
  moreover have "repr_ctx (t_nodes T2) (t_root T2) c (Some y)"
    using repr_ctx_max_equiv[OF 2(2) 1(2)] 2(3) by simp
  moreover have "repr (t_nodes T2) (hole_parent c) (Node (Node A (x,cx,dx) B) (y,cy,dy) C)"
    using repr_max_equiv[OF 2(2) 1(3)] .
  ultimately show ?thesis using 1 2 max_equiv_length[OF 2(2)] by auto
qed

lemma rotate_RIGHT:
  assumes "repr_ctx (t_nodes T) (t_root T) c (Some x)"
      and "repr (t_nodes T) (hole_parent c) (Node (Node A (y,cy,dy) B) (x,cx,dx) C)"
      and "distinct (caddrs c @ addrs (Node (Node A (y,cy,dy) B) (x,cx,dx) C))"
  shows "\<exists>T'. rotate T (Some x) RIGHT = Inr T' \<and> repr_ctx (t_nodes T') (t_root T') c (Some y) \<and>
      repr (t_nodes T') (hole_parent c) (Node A (y,cy,dy) (Node B (x,cx,dx) C)) \<and>
      length (t_nodes T') = length (t_nodes T) \<and> t_comparator T' = t_comparator T \<and>
      t_size T' = t_size T"
proof -
  from rotate_links_RIGHT[OF assms] obtain T1 where 1:
    "rotate_links T (Some x) RIGHT = Inr (T1, Some y)"
    "repr_ctx (t_nodes T1) (t_root T1) c (Some y)"
    "repr (t_nodes T1) (hole_parent c) (Node A (y,cy,dy) (Node B (x,cx,dx) C))"
    "length (t_nodes T1) = length (t_nodes T)" "t_comparator T1 = t_comparator T"
    "t_size T1 = t_size T" by blast
  have vy: "valid_node (t_nodes T1) y" using 1(3) by (rule repr_valid_node)
  have "repr (t_nodes T1) (Some y) (Node B (x,cx,dx) C)" using 1(3) by simp
  then have vx: "valid_node (t_nodes T1) x" by (rule repr_valid_node)
  from fixmax_ok[OF vy vx] obtain T2 where 2:
    "fixmax T1 (Some y) (Some x) = Inr T2" "max_equiv (t_nodes T1) (t_nodes T2)"
    "t_root T2 = t_root T1" "t_comparator T2 = t_comparator T1" "t_size T2 = t_size T1"
    by blast
  have "rotate T (Some x) RIGHT = Inr T2" using 1(1) 2(1) by (simp add: rotate_split)
  moreover have "repr_ctx (t_nodes T2) (t_root T2) c (Some y)"
    using repr_ctx_max_equiv[OF 2(2) 1(2)] 2(3) by simp
  moreover have "repr (t_nodes T2) (hole_parent c) (Node A (y,cy,dy) (Node B (x,cx,dx) C))"
    using repr_max_equiv[OF 2(2) 1(3)] .
  ultimately show ?thesis using 1 2 max_equiv_length[OF 2(2)] by auto
qed

lemma repr_plug:
  "repr_ctx h rt c (rootptr s) \<Longrightarrow> repr h (hole_parent c) s \<Longrightarrow>
     repr h None (plug c s) \<and> rt = rootptr (plug c s)"
proof (induction c s rule: plug.induct)
  case (2 x r c s)
  obtain a cl d where x: "x = (a, cl, d)" by (cases x) auto
  from 2 show ?case unfolding x by simp
next
  case (3 l x c s)
  obtain a cl d where x: "x = (a, cl, d)" by (cases x) auto
  from 3 show ?case unfolding x by simp
qed simp

lemma repr_ctx_root:
  "repr_ctx h rt c p \<Longrightarrow> c \<noteq> [] \<Longrightarrow> \<exists>a \<in> set (caddrs c). rt = Some a"
proof (induction h rt c p rule: repr_ctx.induct)
  case (2 h rt a c d r cs p)
  then show ?case by (cases "cs = []") auto
next
  case (3 h rt l a c d cs p)
  then show ?case by (cases "cs = []") auto
qed simp

lemma repr_ctx_root_notin:
  "repr_ctx h rt c p \<Longrightarrow> c \<noteq> [] \<Longrightarrow> z \<notin> set (caddrs c) \<Longrightarrow> rt \<noteq> Some z"
  using repr_ctx_root by blast

lemma setColor_Some [simp]:
  "a < length (t_nodes T) \<Longrightarrow>
   setColor T (Some a) c = Inr (T\<lparr>t_nodes := (t_nodes T)[a := (t_nodes T ! a)\<lparr>n_color := c\<rparr>]\<rparr>)"
  by (simp add: setColor_def)

lemma uncle_not_red:
  "repr (t_nodes T) par U \<Longrightarrow> \<not> root_red U \<Longrightarrow>
     (if rootptr U \<noteq> None then isRed T (rootptr U) else Inr False) = Inr False"
  by (cases U) (auto simp: isRed_def)

lemma uncle_red:
  "repr (t_nodes T) par U \<Longrightarrow> root_red U \<Longrightarrow>
     (if rootptr U \<noteq> None then isRed T (rootptr U) else Inr False) = Inr True"
  by (cases U) (auto simp: isRed_def)

lemmas body_defs = insert_body_def checkViolation_def getGrandfather_def getChild_def getParent_def
  leftRotate_def rightRotate_def

lemma body_recolor_LL:
  assumes "repr_ctx (t_nodes T) (t_root T) (FL (pa,RED,pd) sib # FL (ga,gc,gd) U # cs) (Some z)"
      and "repr (t_nodes T) (Some pa) (Node l (z,cz,dz) r)"
      and "distinct (caddrs (FL (pa,RED,pd) sib # FL (ga,gc,gd) U # cs) @ addrs (Node l (z,cz,dz) r))"
      and "root_red U"
  shows "\<exists>T'. insert_body T (Some z) = Inr (T', Some ga) \<and>
      repr_ctx (t_nodes T') (t_root T') cs (Some ga) \<and>
      repr (t_nodes T') (hole_parent cs)
        (Node (Node (Node l (z,cz,dz) r) (pa,BLACK,pd) sib) (ga,RED,gd) (paint_root BLACK U)) \<and>
      length (t_nodes T') = length (t_nodes T) \<and> t_comparator T' = t_comparator T \<and>
      t_size T' = t_size T"
proof -
  from assms(4) obtain Ul ua ud Ur where U: "U = Node Ul (ua,RED,ud) Ur"
    by (cases U) (auto elim: lcolor.elims)
  show ?thesis using assms(1-3) unfolding U
    by (simp add: body_defs isRed_def repr_frame repr_ctx_frame rootptr_notin rootptr_notin')
qed

lemma body_recolor_RL:
  assumes "repr_ctx (t_nodes T) (t_root T) (FR sib (pa,RED,pd) # FL (ga,gc,gd) U # cs) (Some z)"
      and "repr (t_nodes T) (Some pa) (Node l (z,cz,dz) r)"
      and "distinct (caddrs (FR sib (pa,RED,pd) # FL (ga,gc,gd) U # cs) @ addrs (Node l (z,cz,dz) r))"
      and "root_red U"
  shows "\<exists>T'. insert_body T (Some z) = Inr (T', Some ga) \<and>
      repr_ctx (t_nodes T') (t_root T') cs (Some ga) \<and>
      repr (t_nodes T') (hole_parent cs)
        (Node (Node sib (pa,BLACK,pd) (Node l (z,cz,dz) r)) (ga,RED,gd) (paint_root BLACK U)) \<and>
      length (t_nodes T') = length (t_nodes T) \<and> t_comparator T' = t_comparator T \<and>
      t_size T' = t_size T"
proof -
  from assms(4) obtain Ul ua ud Ur where U: "U = Node Ul (ua,RED,ud) Ur"
    by (cases U) (auto elim: lcolor.elims)
  show ?thesis using assms(1-3) unfolding U
    by (simp add: body_defs isRed_def repr_frame repr_ctx_frame rootptr_notin rootptr_notin')
qed

lemma body_recolor_RR:
  assumes "repr_ctx (t_nodes T) (t_root T) (FR sib (pa,RED,pd) # FR U (ga,gc,gd) # cs) (Some z)"
      and "repr (t_nodes T) (Some pa) (Node l (z,cz,dz) r)"
      and "distinct (caddrs (FR sib (pa,RED,pd) # FR U (ga,gc,gd) # cs) @ addrs (Node l (z,cz,dz) r))"
      and "root_red U"
  shows "\<exists>T'. insert_body T (Some z) = Inr (T', Some ga) \<and>
      repr_ctx (t_nodes T') (t_root T') cs (Some ga) \<and>
      repr (t_nodes T') (hole_parent cs)
        (Node (paint_root BLACK U) (ga,RED,gd) (Node sib (pa,BLACK,pd) (Node l (z,cz,dz) r))) \<and>
      length (t_nodes T') = length (t_nodes T) \<and> t_comparator T' = t_comparator T \<and>
      t_size T' = t_size T"
proof -
  from assms(4) obtain Ul ua ud Ur where U: "U = Node Ul (ua,RED,ud) Ur"
    by (cases U) (auto elim: lcolor.elims)
  show ?thesis using assms(1-3) unfolding U
    by (simp add: body_defs isRed_def repr_frame repr_ctx_frame rootptr_notin rootptr_notin')
qed

lemma body_recolor_LR:
  assumes "repr_ctx (t_nodes T) (t_root T) (FL (pa,RED,pd) sib # FR U (ga,gc,gd) # cs) (Some z)"
      and "repr (t_nodes T) (Some pa) (Node l (z,cz,dz) r)"
      and "distinct (caddrs (FL (pa,RED,pd) sib # FR U (ga,gc,gd) # cs) @ addrs (Node l (z,cz,dz) r))"
      and "root_red U"
  shows "\<exists>T'. insert_body T (Some z) = Inr (T', Some ga) \<and>
      repr_ctx (t_nodes T') (t_root T') cs (Some ga) \<and>
      repr (t_nodes T') (hole_parent cs)
        (Node (paint_root BLACK U) (ga,RED,gd) (Node (Node l (z,cz,dz) r) (pa,BLACK,pd) sib)) \<and>
      length (t_nodes T') = length (t_nodes T) \<and> t_comparator T' = t_comparator T \<and>
      t_size T' = t_size T"
proof -
  from assms(4) obtain Ul ua ud Ur where U: "U = Node Ul (ua,RED,ud) Ur"
    by (cases U) (auto elim: lcolor.elims)
  show ?thesis using assms(1-3) unfolding U
    by (simp add: body_defs isRed_def repr_frame repr_ctx_frame rootptr_notin rootptr_notin')
qed

lemma insert_cond_False_left:
  "repr (t_nodes T) par (Node (Node l (z,cz,dz) r) (q,BLACK,qd) R) \<Longrightarrow>
     insert_cond T (Some z) = Inr False"
  by (simp add: insert_cond_def getParent_def isRed_def)

lemma insert_cond_False_right:
  "repr (t_nodes T) par (Node L (q,BLACK,qd) (Node l (z,cz,dz) r)) \<Longrightarrow>
     insert_cond T (Some z) = Inr False"
  by (simp add: insert_cond_def getParent_def isRed_def)

lemma body_rotate_LL:
  assumes ctx: "repr_ctx (t_nodes T) (t_root T) (FL (pa,RED,pd) sib # FL (ga,gc,gd) U # cs) (Some z)"
      and sub: "repr (t_nodes T) (Some pa) (Node l (z,cz,dz) r)"
      and dist: "distinct (caddrs (FL (pa,RED,pd) sib # FL (ga,gc,gd) U # cs) @ addrs (Node l (z,cz,dz) r))"
      and U: "\<not> root_red U"
  shows "\<exists>T'. insert_body T (Some z) = Inr (T', Some z) \<and>
      repr_ctx (t_nodes T') (t_root T') cs (Some pa) \<and>
      repr (t_nodes T') (hole_parent cs)
        (Node (Node l (z,cz,dz) r) (pa,BLACK,pd) (Node sib (ga,RED,gd) U)) \<and>
      length (t_nodes T') = length (t_nodes T) \<and> t_comparator T' = t_comparator T \<and>
      t_size T' = t_size T"
proof -
  define T2 where "T2 = T\<lparr>t_nodes := (t_nodes T)[pa := (t_nodes T ! pa)\<lparr>n_color := BLACK\<rparr>]\<rparr>"
  define T3 where "T3 = T2\<lparr>t_nodes := (t_nodes T2)[ga := (t_nodes T2 ! ga)\<lparr>n_color := RED\<rparr>]\<rparr>"
  have un: "(if rootptr U \<noteq> None then isRed T (rootptr U) else Inr False) = Inr False"
    using ctx U by (intro uncle_not_red[where par="Some ga"]) simp_all
  have s2: "setColor T (Some pa) BLACK = Inr T2" using ctx by (simp add: T2_def)
  have s3: "setColor T2 (Some ga) RED = Inr T3" using ctx by (simp add: T3_def T2_def)
  have r0: "getParent T (Some z) = Inr (Some pa)" "getParent T (Some pa) = Inr (Some ga)"
      "getChild T (Some ga) LEFT = Inr (Some pa)" "getChild T (Some ga) RIGHT = Inr (rootptr U)"
      "getChild T (Some pa) RIGHT = Inr (rootptr sib)" "Some z \<noteq> rootptr sib"
    using ctx sub dist by (simp_all add: getParent_def getChild_def rootptr_notin')
  have r2: "getParent T2 (Some z) = Inr (Some pa)" "getParent T2 (Some pa) = Inr (Some ga)"
    using ctx sub dist by (simp_all add: getParent_def T2_def nth_list_update)
  have r3: "getParent T3 (Some z) = Inr (Some pa)" "getParent T3 (Some pa) = Inr (Some ga)"
    using ctx sub dist by (simp_all add: getParent_def T3_def T2_def nth_list_update)
  have c3: "repr_ctx (t_nodes T3) (t_root T3) cs (Some ga)"
    using ctx dist by (simp add: T3_def T2_def repr_ctx_frame)
  have t3: "repr (t_nodes T3) (hole_parent cs)
      (Node (Node (Node l (z,cz,dz) r) (pa,BLACK,pd) sib) (ga,RED,gd) U)"
    using ctx sub dist by (simp add: T3_def T2_def repr_frame)
  have d3: "distinct (caddrs cs @ addrs (Node (Node (Node l (z,cz,dz) r) (pa,BLACK,pd) sib) (ga,RED,gd) U))"
    using dist by auto
  from rotate_RIGHT[OF c3 t3 d3] obtain T4 where 4:
    "rotate T3 (Some ga) RIGHT = Inr T4" "repr_ctx (t_nodes T4) (t_root T4) cs (Some pa)"
    "repr (t_nodes T4) (hole_parent cs) (Node (Node l (z,cz,dz) r) (pa,BLACK,pd) (Node sib (ga,RED,gd) U))"
    "length (t_nodes T4) = length (t_nodes T3)" "t_comparator T4 = t_comparator T3"
    "t_size T4 = t_size T3" by blast
  have "insert_body T (Some z) = Inr (T4, Some z)"
    by (simp add: insert_body_def checkViolation_def getGrandfather_def rightRotate_def
          r0 r2 r3 s2 s3 un 4(1) del: not_None_eq)
  then show ?thesis using 4 by (auto simp: T3_def T2_def)
qed

lemma body_rotate_RR:
  assumes ctx: "repr_ctx (t_nodes T) (t_root T) (FR sib (pa,RED,pd) # FR U (ga,gc,gd) # cs) (Some z)"
      and sub: "repr (t_nodes T) (Some pa) (Node l (z,cz,dz) r)"
      and dist: "distinct (caddrs (FR sib (pa,RED,pd) # FR U (ga,gc,gd) # cs) @ addrs (Node l (z,cz,dz) r))"
      and U: "\<not> root_red U"
  shows "\<exists>T'. insert_body T (Some z) = Inr (T', Some z) \<and>
      repr_ctx (t_nodes T') (t_root T') cs (Some pa) \<and>
      repr (t_nodes T') (hole_parent cs)
        (Node (Node U (ga,RED,gd) sib) (pa,BLACK,pd) (Node l (z,cz,dz) r)) \<and>
      length (t_nodes T') = length (t_nodes T) \<and> t_comparator T' = t_comparator T \<and>
      t_size T' = t_size T"
proof -
  define T2 where "T2 = T\<lparr>t_nodes := (t_nodes T)[pa := (t_nodes T ! pa)\<lparr>n_color := BLACK\<rparr>]\<rparr>"
  define T3 where "T3 = T2\<lparr>t_nodes := (t_nodes T2)[ga := (t_nodes T2 ! ga)\<lparr>n_color := RED\<rparr>]\<rparr>"
  have un: "(if rootptr U \<noteq> None then isRed T (rootptr U) else Inr False) = Inr False"
    using ctx U by (intro uncle_not_red[where par="Some ga"]) simp_all
  have s2: "setColor T (Some pa) BLACK = Inr T2" using ctx by (simp add: T2_def)
  have s3: "setColor T2 (Some ga) RED = Inr T3" using ctx by (simp add: T3_def T2_def)
  have r0: "getParent T (Some z) = Inr (Some pa)" "getParent T (Some pa) = Inr (Some ga)"
      "getChild T (Some ga) LEFT = Inr (rootptr U)" "getChild T (Some ga) RIGHT = Inr (Some pa)"
      "getChild T (Some pa) LEFT = Inr (rootptr sib)" "Some z \<noteq> rootptr sib"
      "Some pa \<noteq> rootptr U"
    using ctx sub dist by (simp_all add: getParent_def getChild_def rootptr_notin')
  have r2: "getParent T2 (Some z) = Inr (Some pa)" "getParent T2 (Some pa) = Inr (Some ga)"
    using ctx sub dist by (simp_all add: getParent_def T2_def nth_list_update)
  have r3: "getParent T3 (Some z) = Inr (Some pa)" "getParent T3 (Some pa) = Inr (Some ga)"
    using ctx sub dist by (simp_all add: getParent_def T3_def T2_def nth_list_update)
  have c3: "repr_ctx (t_nodes T3) (t_root T3) cs (Some ga)"
    using ctx dist by (simp add: T3_def T2_def repr_ctx_frame)
  have t3: "repr (t_nodes T3) (hole_parent cs)
      (Node U (ga,RED,gd) (Node sib (pa,BLACK,pd) (Node l (z,cz,dz) r)))"
    using ctx sub dist by (simp add: T3_def T2_def repr_frame)
  have d3: "distinct (caddrs cs @ addrs (Node U (ga,RED,gd) (Node sib (pa,BLACK,pd) (Node l (z,cz,dz) r))))"
    using dist by auto
  from rotate_LEFT[OF c3 t3 d3] obtain T4 where 4:
    "rotate T3 (Some ga) LEFT = Inr T4" "repr_ctx (t_nodes T4) (t_root T4) cs (Some pa)"
    "repr (t_nodes T4) (hole_parent cs) (Node (Node U (ga,RED,gd) sib) (pa,BLACK,pd) (Node l (z,cz,dz) r))"
    "length (t_nodes T4) = length (t_nodes T3)" "t_comparator T4 = t_comparator T3"
    "t_size T4 = t_size T3" by blast
  have "insert_body T (Some z) = Inr (T4, Some z)"
    by (simp add: insert_body_def checkViolation_def getGrandfather_def leftRotate_def
          r0 r2 r3 s2 s3 un 4(1) del: not_None_eq)
  then show ?thesis using 4 by (auto simp: T3_def T2_def)
qed

lemma body_rotate_RL:
  assumes ctx: "repr_ctx (t_nodes T) (t_root T) (FR sib (pa,RED,pd) # FL (ga,gc,gd) U # cs) (Some z)"
      and sub: "repr (t_nodes T) (Some pa) (Node l (z,cz,dz) r)"
      and dist: "distinct (caddrs (FR sib (pa,RED,pd) # FL (ga,gc,gd) U # cs) @ addrs (Node l (z,cz,dz) r))"
      and U: "\<not> root_red U"
  shows "\<exists>T'. insert_body T (Some z) = Inr (T', Some pa) \<and>
      repr_ctx (t_nodes T') (t_root T') cs (Some z) \<and>
      repr (t_nodes T') (hole_parent cs)
        (Node (Node sib (pa,RED,pd) l) (z,BLACK,dz) (Node r (ga,RED,gd) U)) \<and>
      length (t_nodes T') = length (t_nodes T) \<and> t_comparator T' = t_comparator T \<and>
      t_size T' = t_size T"
proof -
  have un: "(if rootptr U \<noteq> None then isRed T (rootptr U) else Inr False) = Inr False"
    using ctx U by (intro uncle_not_red[where par="Some ga"]) simp_all
  have r0: "getParent T (Some z) = Inr (Some pa)" "getParent T (Some pa) = Inr (Some ga)"
      "getChild T (Some ga) LEFT = Inr (Some pa)" "getChild T (Some ga) RIGHT = Inr (rootptr U)"
      "getChild T (Some pa) RIGHT = Inr (Some z)"
    using ctx sub dist by (simp_all add: getParent_def getChild_def rootptr_notin')
  have c0: "repr_ctx (t_nodes T) (t_root T) (FL (ga,gc,gd) U # cs) (Some pa)"
    using ctx by simp
  have t0: "repr (t_nodes T) (hole_parent (FL (ga,gc,gd) U # cs)) (Node sib (pa,RED,pd) (Node l (z,cz,dz) r))"
    using ctx sub by simp
  have d0: "distinct (caddrs (FL (ga,gc,gd) U # cs) @ addrs (Node sib (pa,RED,pd) (Node l (z,cz,dz) r)))"
    using dist by auto
  from rotate_LEFT[OF c0 t0 d0] obtain T1 where 1:
    "rotate T (Some pa) LEFT = Inr T1" "repr_ctx (t_nodes T1) (t_root T1) (FL (ga,gc,gd) U # cs) (Some z)"
    "repr (t_nodes T1) (hole_parent (FL (ga,gc,gd) U # cs)) (Node (Node sib (pa,RED,pd) l) (z,cz,dz) r)"
    "length (t_nodes T1) = length (t_nodes T)" "t_comparator T1 = t_comparator T"
    "t_size T1 = t_size T" by blast
  define T2 where "T2 = T1\<lparr>t_nodes := (t_nodes T1)[z := (t_nodes T1 ! z)\<lparr>n_color := BLACK\<rparr>]\<rparr>"
  define T3 where "T3 = T2\<lparr>t_nodes := (t_nodes T2)[ga := (t_nodes T2 ! ga)\<lparr>n_color := RED\<rparr>]\<rparr>"
  have ne: "z \<noteq> pa" "z \<noteq> ga" "pa \<noteq> ga" using dist by auto
  have s2: "setColor T1 (Some z) BLACK = Inr T2" using 1(3) by (simp add: T2_def)
  have s3: "setColor T2 (Some ga) RED = Inr T3" using 1(2) by (simp add: T3_def T2_def)
  have r1: "getParent T1 (Some pa) = Inr (Some z)"
    using 1(3) by (simp add: getParent_def)
  have r2: "getParent T2 (Some pa) = Inr (Some z)" "getParent T2 (Some z) = Inr (Some ga)"
    using 1(3) ne by (simp_all add: getParent_def T2_def nth_list_update)
  have r3: "getParent T3 (Some pa) = Inr (Some z)" "getParent T3 (Some z) = Inr (Some ga)"
    using 1(3) ne by (simp_all add: getParent_def T3_def T2_def nth_list_update)
  have c3: "repr_ctx (t_nodes T3) (t_root T3) cs (Some ga)"
    using 1(2) dist by (simp add: T3_def T2_def repr_ctx_frame)
  have t3: "repr (t_nodes T3) (hole_parent cs)
      (Node (Node (Node sib (pa,RED,pd) l) (z,BLACK,dz) r) (ga,RED,gd) U)"
    using 1(2,3) dist by (simp add: T3_def T2_def repr_frame)
  have d3: "distinct (caddrs cs @ addrs (Node (Node (Node sib (pa,RED,pd) l) (z,BLACK,dz) r) (ga,RED,gd) U))"
    using dist by auto
  from rotate_RIGHT[OF c3 t3 d3] obtain T4 where 4:
    "rotate T3 (Some ga) RIGHT = Inr T4" "repr_ctx (t_nodes T4) (t_root T4) cs (Some z)"
    "repr (t_nodes T4) (hole_parent cs) (Node (Node sib (pa,RED,pd) l) (z,BLACK,dz) (Node r (ga,RED,gd) U))"
    "length (t_nodes T4) = length (t_nodes T3)" "t_comparator T4 = t_comparator T3"
    "t_size T4 = t_size T3" by blast
  have "insert_body T (Some z) = Inr (T4, Some pa)"
    by (simp add: insert_body_def checkViolation_def getGrandfather_def leftRotate_def rightRotate_def
          r0 r1 r2 r3 s2 s3 un 1(1) 4(1) del: not_None_eq)
  then show ?thesis using 1 4 by (auto simp: T3_def T2_def)
qed

lemma body_rotate_LR:
  assumes ctx: "repr_ctx (t_nodes T) (t_root T) (FL (pa,RED,pd) sib # FR U (ga,gc,gd) # cs) (Some z)"
      and sub: "repr (t_nodes T) (Some pa) (Node l (z,cz,dz) r)"
      and dist: "distinct (caddrs (FL (pa,RED,pd) sib # FR U (ga,gc,gd) # cs) @ addrs (Node l (z,cz,dz) r))"
      and U: "\<not> root_red U"
  shows "\<exists>T'. insert_body T (Some z) = Inr (T', Some pa) \<and>
      repr_ctx (t_nodes T') (t_root T') cs (Some z) \<and>
      repr (t_nodes T') (hole_parent cs)
        (Node (Node U (ga,RED,gd) l) (z,BLACK,dz) (Node r (pa,RED,pd) sib)) \<and>
      length (t_nodes T') = length (t_nodes T) \<and> t_comparator T' = t_comparator T \<and>
      t_size T' = t_size T"
proof -
  have un: "(if rootptr U \<noteq> None then isRed T (rootptr U) else Inr False) = Inr False"
    using ctx U by (intro uncle_not_red[where par="Some ga"]) simp_all
  have r0: "getParent T (Some z) = Inr (Some pa)" "getParent T (Some pa) = Inr (Some ga)"
      "getChild T (Some ga) LEFT = Inr (rootptr U)" "getChild T (Some ga) RIGHT = Inr (Some pa)"
      "getChild T (Some pa) LEFT = Inr (Some z)" "Some pa \<noteq> rootptr U"
    using ctx sub dist by (simp_all add: getParent_def getChild_def rootptr_notin')
  have c0: "repr_ctx (t_nodes T) (t_root T) (FR U (ga,gc,gd) # cs) (Some pa)"
    using ctx by simp
  have t0: "repr (t_nodes T) (hole_parent (FR U (ga,gc,gd) # cs)) (Node (Node l (z,cz,dz) r) (pa,RED,pd) sib)"
    using ctx sub by simp
  have d0: "distinct (caddrs (FR U (ga,gc,gd) # cs) @ addrs (Node (Node l (z,cz,dz) r) (pa,RED,pd) sib))"
    using dist by auto
  from rotate_RIGHT[OF c0 t0 d0] obtain T1 where 1:
    "rotate T (Some pa) RIGHT = Inr T1" "repr_ctx (t_nodes T1) (t_root T1) (FR U (ga,gc,gd) # cs) (Some z)"
    "repr (t_nodes T1) (hole_parent (FR U (ga,gc,gd) # cs)) (Node l (z,cz,dz) (Node r (pa,RED,pd) sib))"
    "length (t_nodes T1) = length (t_nodes T)" "t_comparator T1 = t_comparator T"
    "t_size T1 = t_size T" by blast
  define T2 where "T2 = T1\<lparr>t_nodes := (t_nodes T1)[z := (t_nodes T1 ! z)\<lparr>n_color := BLACK\<rparr>]\<rparr>"
  define T3 where "T3 = T2\<lparr>t_nodes := (t_nodes T2)[ga := (t_nodes T2 ! ga)\<lparr>n_color := RED\<rparr>]\<rparr>"
  have ne: "z \<noteq> pa" "z \<noteq> ga" "pa \<noteq> ga" using dist by auto
  have s2: "setColor T1 (Some z) BLACK = Inr T2" using 1(3) by (simp add: T2_def)
  have s3: "setColor T2 (Some ga) RED = Inr T3" using 1(2) by (simp add: T3_def T2_def)
  have r1: "getParent T1 (Some pa) = Inr (Some z)"
    using 1(3) by (simp add: getParent_def)
  have r2: "getParent T2 (Some pa) = Inr (Some z)" "getParent T2 (Some z) = Inr (Some ga)"
    using 1(3) ne by (simp_all add: getParent_def T2_def nth_list_update)
  have r3: "getParent T3 (Some pa) = Inr (Some z)" "getParent T3 (Some z) = Inr (Some ga)"
    using 1(3) ne by (simp_all add: getParent_def T3_def T2_def nth_list_update)
  have c3: "repr_ctx (t_nodes T3) (t_root T3) cs (Some ga)"
    using 1(2) dist by (simp add: T3_def T2_def repr_ctx_frame)
  have t3: "repr (t_nodes T3) (hole_parent cs)
      (Node U (ga,RED,gd) (Node l (z,BLACK,dz) (Node r (pa,RED,pd) sib)))"
    using 1(2,3) dist by (simp add: T3_def T2_def repr_frame)
  have d3: "distinct (caddrs cs @ addrs (Node U (ga,RED,gd) (Node l (z,BLACK,dz) (Node r (pa,RED,pd) sib))))"
    using dist by auto
  from rotate_LEFT[OF c3 t3 d3] obtain T4 where 4:
    "rotate T3 (Some ga) LEFT = Inr T4" "repr_ctx (t_nodes T4) (t_root T4) cs (Some z)"
    "repr (t_nodes T4) (hole_parent cs) (Node (Node U (ga,RED,gd) l) (z,BLACK,dz) (Node r (pa,RED,pd) sib))"
    "length (t_nodes T4) = length (t_nodes T3)" "t_comparator T4 = t_comparator T3"
    "t_size T4 = t_size T3" by blast
  have "insert_body T (Some z) = Inr (T4, Some pa)"
    by (simp add: insert_body_def checkViolation_def getGrandfather_def leftRotate_def rightRotate_def
          r0 r1 r2 r3 s2 s3 un 1(1) 4(1) del: not_None_eq)
  then show ?thesis using 1 4 by (auto simp: T3_def T2_def)
qed

lemma addrs_paint_root [simp]: "addrs (paint_root c t) = addrs t"
  by (cases t) (auto elim: setc.elims)

lemma insert_cond_root:
  "repr_ctx (t_nodes T) (t_root T) [] (Some z) \<Longrightarrow> insert_cond T (Some z) = Inr False"
  by (simp add: insert_cond_def)

lemma insert_cond_zip:
  assumes "repr_ctx (t_nodes T) (t_root T) (f # cs) (Some z)"
      and "repr (t_nodes T) (hole_parent (f # cs)) (Node l (z,cz,dz) r)"
      and "z \<notin> set (caddrs (f # cs))"
  shows "insert_cond T (Some z) = Inr (lcolor (flab f) = RED)"
proof -
  have "t_root T \<noteq> Some z" using repr_ctx_root_notin[OF assms(1) _ assms(3)] by simp
  moreover obtain a cl d where "flab f = (a, cl, d)" by (cases "flab f") auto
  ultimately show ?thesis using assms
    by (cases f) (auto simp: insert_cond_def getParent_def isRed_def)
qed

lemma ctx_cases [case_names Nil One LL RL RR LR]:
  obtains "c = []" | f where "c = [f]"
  | p sib g U cs where "c = FL p sib # FL g U # cs"
  | sib p g U cs where "c = FR sib p # FL g U # cs"
  | sib p U g cs where "c = FR sib p # FR U g # cs"
  | p sib U g cs where "c = FL p sib # FR U g # cs"
  by (cases "(c, Leaf :: lab tree)" rule: fixup.cases) auto

lemma insert_loop_stop:
  "insert_cond T node = Inr False \<Longrightarrow> insert_loop T node = Some (Inr T)"
  by (subst insert_loop.simps) simp

lemma insert_loop_step:
  "insert_cond T node = Inr True \<Longrightarrow> insert_body T node = Inr (T', node') \<Longrightarrow>
     insert_loop T node = insert_loop T' node'"
  by (subst insert_loop.simps) simp

lemma root_ok_tl2: "root_ok (f1 # f2 # cs) \<Longrightarrow> root_ok cs"
  by (auto simp: root_ok_def)

lemma insert_loop_sim:
  assumes "repr_ctx (t_nodes T) (t_root T) c (Some z)"
      and "repr (t_nodes T) (hole_parent c) (Node l (z,cz,dz) r)"
      and "distinct (caddrs c @ addrs (Node l (z,cz,dz) r))"
      and "root_ok c"
  shows "\<exists>T'. insert_loop T (Some z) = Some (Inr T') \<and>
      repr (t_nodes T') None (fixup c (Node l (z,cz,dz) r)) \<and>
      t_root T' = rootptr (fixup c (Node l (z,cz,dz) r)) \<and>
      length (t_nodes T') = length (t_nodes T) \<and> t_comparator T' = t_comparator T \<and>
      t_size T' = t_size T"
  using assms
proof (induction "length c" arbitrary: c T l z cz dz r rule: less_induct)
  case less
  let ?s = "Node l (z,cz,dz) r"
  note ctx = less.prems(1) and sub = less.prems(2) and dist = less.prems(3) and rok = less.prems(4)
  have stop: ?case if a: "insert_cond T (Some z) = Inr False" and b: "fixup c ?s = plug c ?s"
  proof -
    have "repr (t_nodes T) None (plug c ?s) \<and> t_root T = rootptr (plug c ?s)"
      using ctx sub by (intro repr_plug) simp_all
    then show ?thesis using a b by (intro exI[of _ T]) (simp add: insert_loop_stop)
  qed
  have fin: "\<exists>T'. insert_loop T (Some z) = Some (Inr T') \<and>
      repr (t_nodes T') None (plug cs res) \<and> t_root T' = rootptr (plug cs res) \<and>
      length (t_nodes T') = length (t_nodes T) \<and> t_comparator T' = t_comparator T \<and>
      t_size T' = t_size T"
    if "insert_cond T (Some z) = Inr True" "insert_body T (Some z) = Inr (T4, n')"
       "insert_cond T4 n' = Inr False" "repr_ctx (t_nodes T4) (t_root T4) cs (rootptr res)"
       "repr (t_nodes T4) (hole_parent cs) res" "length (t_nodes T4) = length (t_nodes T)"
       "t_comparator T4 = t_comparator T" "t_size T4 = t_size T" for T4 n' cs res
  proof -
    have "repr (t_nodes T4) None (plug cs res) \<and> t_root T4 = rootptr (plug cs res)"
      using that(4,5) by (rule repr_plug)
    moreover have "insert_loop T (Some z) = Some (Inr T4)"
      using that(1,2,3) by (simp add: insert_loop_step insert_loop_stop)
    ultimately show ?thesis using that(6,7,8) by (intro exI[of _ T4]) simp
  qed
  have zn: "z \<notin> set (caddrs c)" using dist by auto
  show ?case
  proof (cases c rule: ctx_cases)
    case Nil
    show ?thesis
    proof (rule stop)
      show "insert_cond T (Some z) = Inr False" using ctx Nil by (simp add: insert_cond_root)
      show "fixup c ?s = plug c ?s" using Nil by simp
    qed
  next
    case (One f)
    obtain a cl d where lab: "flab f = (a, cl, d)" by (cases "flab f") auto
    have "cl \<noteq> RED" using rok One lab by (simp add: root_ok_def)
    moreover have "insert_cond T (Some z) = Inr (lcolor (flab f) = RED)"
      using insert_cond_zip[OF ctx[unfolded One] sub[unfolded One] zn[unfolded One]] .
    ultimately show ?thesis using One lab by (intro stop) simp_all
  next
    case (LL p sib g U cs)
    obtain pa pc pd where p: "p = (pa, pc, pd)" by (cases p) auto
    obtain ga gc gd where g: "g = (ga, gc, gd)" by (cases g) auto
    have c: "c = FL (pa,pc,pd) sib # FL (ga,gc,gd) U # cs" using LL p g by simp
    have cond: "insert_cond T (Some z) = Inr (pc = RED)"
      using insert_cond_zip[OF ctx[unfolded c] sub[unfolded c] zn[unfolded c]] by simp
    show ?thesis
    proof (cases "pc = RED")
      case False
      then show ?thesis using cond c by (intro stop) simp_all
    next
      case True
      note ctx' = ctx[unfolded c True] and dist' = dist[unfolded c True]
      have sub': "repr (t_nodes T) (Some pa) ?s" using sub c by simp
      show ?thesis
      proof (cases "root_red U")
        case True
        from body_recolor_LL[OF ctx' sub' dist' True] obtain T1 where 1:
          "insert_body T (Some z) = Inr (T1, Some ga)"
          "repr_ctx (t_nodes T1) (t_root T1) cs (Some ga)"
          "repr (t_nodes T1) (hole_parent cs)
             (Node (Node ?s (pa,BLACK,pd) sib) (ga,RED,gd) (paint_root BLACK U))"
          "length (t_nodes T1) = length (t_nodes T)" "t_comparator T1 = t_comparator T"
          "t_size T1 = t_size T" by blast
        have d1: "distinct (caddrs cs @ addrs (Node (Node ?s (pa,BLACK,pd) sib) (ga,RED,gd) (paint_root BLACK U)))"
          using dist' by auto
        have rok': "root_ok cs" using rok c by (auto dest: root_ok_tl2)
        have len: "length cs < length c" using c by simp
        from less.hyps[OF len 1(2,3) d1 rok'] obtain T' where
          "insert_loop T1 (Some ga) = Some (Inr T')"
          "repr (t_nodes T') None (fixup cs (Node (Node ?s (pa,BLACK,pd) sib) (ga,RED,gd) (paint_root BLACK U)))"
          "t_root T' = rootptr (fixup cs (Node (Node ?s (pa,BLACK,pd) sib) (ga,RED,gd) (paint_root BLACK U)))"
          "length (t_nodes T') = length (t_nodes T1)" "t_comparator T' = t_comparator T1"
          "t_size T' = t_size T1"
          by blast
        moreover have "insert_loop T (Some z) = insert_loop T1 (Some ga)"
          using cond \<open>pc = RED\<close> 1(1) by (simp add: insert_loop_step)
        ultimately show ?thesis using 1(4,5,6) c True \<open>pc = RED\<close>
          by (intro exI[of _ T']) simp
      next
        case False
        from body_rotate_LL[OF ctx' sub' dist' False] obtain T4 where 4:
          "insert_body T (Some z) = Inr (T4, Some z)"
          "repr_ctx (t_nodes T4) (t_root T4) cs (Some pa)"
          "repr (t_nodes T4) (hole_parent cs) (Node ?s (pa,BLACK,pd) (Node sib (ga,RED,gd) U))"
          "length (t_nodes T4) = length (t_nodes T)" "t_comparator T4 = t_comparator T"
          "t_size T4 = t_size T" by blast
        have icF: "insert_cond T4 (Some z) = Inr False"
          using 4(3) by (rule insert_cond_False_left)
        have "\<exists>T'. insert_loop T (Some z) = Some (Inr T') \<and>
            repr (t_nodes T') None (plug cs (Node ?s (pa,BLACK,pd) (Node sib (ga,RED,gd) U))) \<and>
            t_root T' = rootptr (plug cs (Node ?s (pa,BLACK,pd) (Node sib (ga,RED,gd) U))) \<and>
            length (t_nodes T') = length (t_nodes T) \<and> t_comparator T' = t_comparator T \<and>
            t_size T' = t_size T"
          using cond True \<open>pc = RED\<close> 4(2) by (intro fin[OF _ 4(1) icF _ 4(3,4,5,6)]) simp_all
        then show ?thesis using c False \<open>pc = RED\<close> by simp
      qed
    qed
  next
    case (RL sib p g U cs)
    obtain pa pc pd where p: "p = (pa, pc, pd)" by (cases p) auto
    obtain ga gc gd where g: "g = (ga, gc, gd)" by (cases g) auto
    have c: "c = FR sib (pa,pc,pd) # FL (ga,gc,gd) U # cs" using RL p g by simp
    have cond: "insert_cond T (Some z) = Inr (pc = RED)"
      using insert_cond_zip[OF ctx[unfolded c] sub[unfolded c] zn[unfolded c]] by simp
    show ?thesis
    proof (cases "pc = RED")
      case False
      then show ?thesis using cond c by (intro stop) simp_all
    next
      case True
      note ctx' = ctx[unfolded c True] and dist' = dist[unfolded c True]
      have sub': "repr (t_nodes T) (Some pa) ?s" using sub c by simp
      show ?thesis
      proof (cases "root_red U")
        case True
        from body_recolor_RL[OF ctx' sub' dist' True] obtain T1 where 1:
          "insert_body T (Some z) = Inr (T1, Some ga)"
          "repr_ctx (t_nodes T1) (t_root T1) cs (Some ga)"
          "repr (t_nodes T1) (hole_parent cs)
             (Node (Node sib (pa,BLACK,pd) ?s) (ga,RED,gd) (paint_root BLACK U))"
          "length (t_nodes T1) = length (t_nodes T)" "t_comparator T1 = t_comparator T"
          "t_size T1 = t_size T" by blast
        have d1: "distinct (caddrs cs @ addrs (Node (Node sib (pa,BLACK,pd) ?s) (ga,RED,gd) (paint_root BLACK U)))"
          using dist' by auto
        have rok': "root_ok cs" using rok c by (auto dest: root_ok_tl2)
        have len: "length cs < length c" using c by simp
        from less.hyps[OF len 1(2,3) d1 rok'] obtain T' where
          "insert_loop T1 (Some ga) = Some (Inr T')"
          "repr (t_nodes T') None (fixup cs (Node (Node sib (pa,BLACK,pd) ?s) (ga,RED,gd) (paint_root BLACK U)))"
          "t_root T' = rootptr (fixup cs (Node (Node sib (pa,BLACK,pd) ?s) (ga,RED,gd) (paint_root BLACK U)))"
          "length (t_nodes T') = length (t_nodes T1)" "t_comparator T' = t_comparator T1"
          "t_size T' = t_size T1"
          by blast
        moreover have "insert_loop T (Some z) = insert_loop T1 (Some ga)"
          using cond \<open>pc = RED\<close> 1(1) by (simp add: insert_loop_step)
        ultimately show ?thesis using 1(4,5,6) c True \<open>pc = RED\<close>
          by (intro exI[of _ T']) simp
      next
        case False
        from body_rotate_RL[OF ctx' sub' dist' False] obtain T4 where 4:
          "insert_body T (Some z) = Inr (T4, Some pa)"
          "repr_ctx (t_nodes T4) (t_root T4) cs (Some z)"
          "repr (t_nodes T4) (hole_parent cs) (Node (Node sib (pa,RED,pd) l) (z,BLACK,dz) (Node r (ga,RED,gd) U))"
          "length (t_nodes T4) = length (t_nodes T)" "t_comparator T4 = t_comparator T"
          "t_size T4 = t_size T" by blast
        have icF: "insert_cond T4 (Some pa) = Inr False"
          using 4(3) by (rule insert_cond_False_left)
        have "\<exists>T'. insert_loop T (Some z) = Some (Inr T') \<and>
            repr (t_nodes T') None (plug cs (Node (Node sib (pa,RED,pd) l) (z,BLACK,dz) (Node r (ga,RED,gd) U))) \<and>
            t_root T' = rootptr (plug cs (Node (Node sib (pa,RED,pd) l) (z,BLACK,dz) (Node r (ga,RED,gd) U))) \<and>
            length (t_nodes T') = length (t_nodes T) \<and> t_comparator T' = t_comparator T \<and>
            t_size T' = t_size T"
          using cond True \<open>pc = RED\<close> 4(2) by (intro fin[OF _ 4(1) icF _ 4(3,4,5,6)]) simp_all
        then show ?thesis using c False \<open>pc = RED\<close> by simp
      qed
    qed
  next
    case (RR sib p U g cs)
    obtain pa pc pd where p: "p = (pa, pc, pd)" by (cases p) auto
    obtain ga gc gd where g: "g = (ga, gc, gd)" by (cases g) auto
    have c: "c = FR sib (pa,pc,pd) # FR U (ga,gc,gd) # cs" using RR p g by simp
    have cond: "insert_cond T (Some z) = Inr (pc = RED)"
      using insert_cond_zip[OF ctx[unfolded c] sub[unfolded c] zn[unfolded c]] by simp
    show ?thesis
    proof (cases "pc = RED")
      case False
      then show ?thesis using cond c by (intro stop) simp_all
    next
      case True
      note ctx' = ctx[unfolded c True] and dist' = dist[unfolded c True]
      have sub': "repr (t_nodes T) (Some pa) ?s" using sub c by simp
      show ?thesis
      proof (cases "root_red U")
        case True
        from body_recolor_RR[OF ctx' sub' dist' True] obtain T1 where 1:
          "insert_body T (Some z) = Inr (T1, Some ga)"
          "repr_ctx (t_nodes T1) (t_root T1) cs (Some ga)"
          "repr (t_nodes T1) (hole_parent cs)
             (Node (paint_root BLACK U) (ga,RED,gd) (Node sib (pa,BLACK,pd) ?s))"
          "length (t_nodes T1) = length (t_nodes T)" "t_comparator T1 = t_comparator T"
          "t_size T1 = t_size T" by blast
        have d1: "distinct (caddrs cs @ addrs (Node (paint_root BLACK U) (ga,RED,gd) (Node sib (pa,BLACK,pd) ?s)))"
          using dist' by auto
        have rok': "root_ok cs" using rok c by (auto dest: root_ok_tl2)
        have len: "length cs < length c" using c by simp
        from less.hyps[OF len 1(2,3) d1 rok'] obtain T' where
          "insert_loop T1 (Some ga) = Some (Inr T')"
          "repr (t_nodes T') None (fixup cs (Node (paint_root BLACK U) (ga,RED,gd) (Node sib (pa,BLACK,pd) ?s)))"
          "t_root T' = rootptr (fixup cs (Node (paint_root BLACK U) (ga,RED,gd) (Node sib (pa,BLACK,pd) ?s)))"
          "length (t_nodes T') = length (t_nodes T1)" "t_comparator T' = t_comparator T1"
          "t_size T' = t_size T1"
          by blast
        moreover have "insert_loop T (Some z) = insert_loop T1 (Some ga)"
          using cond \<open>pc = RED\<close> 1(1) by (simp add: insert_loop_step)
        ultimately show ?thesis using 1(4,5,6) c True \<open>pc = RED\<close>
          by (intro exI[of _ T']) simp
      next
        case False
        from body_rotate_RR[OF ctx' sub' dist' False] obtain T4 where 4:
          "insert_body T (Some z) = Inr (T4, Some z)"
          "repr_ctx (t_nodes T4) (t_root T4) cs (Some pa)"
          "repr (t_nodes T4) (hole_parent cs) (Node (Node U (ga,RED,gd) sib) (pa,BLACK,pd) ?s)"
          "length (t_nodes T4) = length (t_nodes T)" "t_comparator T4 = t_comparator T"
          "t_size T4 = t_size T" by blast
        have icF: "insert_cond T4 (Some z) = Inr False"
          using 4(3) by (rule insert_cond_False_right)
        have "\<exists>T'. insert_loop T (Some z) = Some (Inr T') \<and>
            repr (t_nodes T') None (plug cs (Node (Node U (ga,RED,gd) sib) (pa,BLACK,pd) ?s)) \<and>
            t_root T' = rootptr (plug cs (Node (Node U (ga,RED,gd) sib) (pa,BLACK,pd) ?s)) \<and>
            length (t_nodes T') = length (t_nodes T) \<and> t_comparator T' = t_comparator T \<and>
            t_size T' = t_size T"
          using cond True \<open>pc = RED\<close> 4(2) by (intro fin[OF _ 4(1) icF _ 4(3,4,5,6)]) simp_all
        then show ?thesis using c False \<open>pc = RED\<close> by simp
      qed
    qed
  next
    case (LR p sib U g cs)
    obtain pa pc pd where p: "p = (pa, pc, pd)" by (cases p) auto
    obtain ga gc gd where g: "g = (ga, gc, gd)" by (cases g) auto
    have c: "c = FL (pa,pc,pd) sib # FR U (ga,gc,gd) # cs" using LR p g by simp
    have cond: "insert_cond T (Some z) = Inr (pc = RED)"
      using insert_cond_zip[OF ctx[unfolded c] sub[unfolded c] zn[unfolded c]] by simp
    show ?thesis
    proof (cases "pc = RED")
      case False
      then show ?thesis using cond c by (intro stop) simp_all
    next
      case True
      note ctx' = ctx[unfolded c True] and dist' = dist[unfolded c True]
      have sub': "repr (t_nodes T) (Some pa) ?s" using sub c by simp
      show ?thesis
      proof (cases "root_red U")
        case True
        from body_recolor_LR[OF ctx' sub' dist' True] obtain T1 where 1:
          "insert_body T (Some z) = Inr (T1, Some ga)"
          "repr_ctx (t_nodes T1) (t_root T1) cs (Some ga)"
          "repr (t_nodes T1) (hole_parent cs)
             (Node (paint_root BLACK U) (ga,RED,gd) (Node ?s (pa,BLACK,pd) sib))"
          "length (t_nodes T1) = length (t_nodes T)" "t_comparator T1 = t_comparator T"
          "t_size T1 = t_size T" by blast
        have d1: "distinct (caddrs cs @ addrs (Node (paint_root BLACK U) (ga,RED,gd) (Node ?s (pa,BLACK,pd) sib)))"
          using dist' by auto
        have rok': "root_ok cs" using rok c by (auto dest: root_ok_tl2)
        have len: "length cs < length c" using c by simp
        from less.hyps[OF len 1(2,3) d1 rok'] obtain T' where
          "insert_loop T1 (Some ga) = Some (Inr T')"
          "repr (t_nodes T') None (fixup cs (Node (paint_root BLACK U) (ga,RED,gd) (Node ?s (pa,BLACK,pd) sib)))"
          "t_root T' = rootptr (fixup cs (Node (paint_root BLACK U) (ga,RED,gd) (Node ?s (pa,BLACK,pd) sib)))"
          "length (t_nodes T') = length (t_nodes T1)" "t_comparator T' = t_comparator T1"
          "t_size T' = t_size T1"
          by blast
        moreover have "insert_loop T (Some z) = insert_loop T1 (Some ga)"
          using cond \<open>pc = RED\<close> 1(1) by (simp add: insert_loop_step)
        ultimately show ?thesis using 1(4,5,6) c True \<open>pc = RED\<close>
          by (intro exI[of _ T']) simp
      next
        case False
        from body_rotate_LR[OF ctx' sub' dist' False] obtain T4 where 4:
          "insert_body T (Some z) = Inr (T4, Some pa)"
          "repr_ctx (t_nodes T4) (t_root T4) cs (Some z)"
          "repr (t_nodes T4) (hole_parent cs) (Node (Node U (ga,RED,gd) l) (z,BLACK,dz) (Node r (pa,RED,pd) sib))"
          "length (t_nodes T4) = length (t_nodes T)" "t_comparator T4 = t_comparator T"
          "t_size T4 = t_size T" by blast
        have icF: "insert_cond T4 (Some pa) = Inr False"
          using 4(3) by (rule insert_cond_False_right)
        have "\<exists>T'. insert_loop T (Some z) = Some (Inr T') \<and>
            repr (t_nodes T') None (plug cs (Node (Node U (ga,RED,gd) l) (z,BLACK,dz) (Node r (pa,RED,pd) sib))) \<and>
            t_root T' = rootptr (plug cs (Node (Node U (ga,RED,gd) l) (z,BLACK,dz) (Node r (pa,RED,pd) sib))) \<and>
            length (t_nodes T') = length (t_nodes T) \<and> t_comparator T' = t_comparator T \<and>
            t_size T' = t_size T"
          using cond True \<open>pc = RED\<close> 4(2) by (intro fin[OF _ 4(1) icF _ 4(3,4,5,6)]) simp_all
        then show ?thesis using c False \<open>pc = RED\<close> by simp
      qed
    qed
  qed
qed

lemma plug_append: "plug (c1 @ c2) s = plug c2 (plug c1 s)"
  by (induction c1 s rule: plug.induct) auto

lemma plug_path: "plug (path cmp d t) Leaf = t"
  by (induction t) (auto simp: plug_append)

lemma hole_parent_append: "c1 \<noteq> [] \<Longrightarrow> hole_parent (c1 @ c2) = hole_parent c1"
  by (cases c1 rule: hole_parent.cases) auto

lemma insertNode_loop_sim:
  assumes "repr_ctx (t_nodes T) (t_root T) c (rootptr t)" "repr (t_nodes T) (hole_parent c) t"
  shows "insertNode_loop T d (hole_parent c) (rootptr t) =
           Some (Inr (hole_parent (path (t_comparator T) d t @ c))) \<and>
         repr_ctx (t_nodes T) (t_root T) (path (t_comparator T) d t @ c) None"
  using assms
proof (induction t arbitrary: c)
  case Leaf
  then show ?case by (subst insertNode_loop.simps) simp
next
  case (Node l x r)
  obtain a cl dx where x: "x = (a, cl, dx)" by (cases x) auto
  show ?case
  proof (cases "t_comparator T d dx = LEFT")
    case True
    have "repr_ctx (t_nodes T) (t_root T) (FL x r # c) (rootptr l)"
         "repr (t_nodes T) (hole_parent (FL x r # c)) l"
      using Node.prems x by auto
    from Node.IH(1)[OF this] show ?thesis using Node.prems x True
      by (subst insertNode_loop.simps) (simp add: getChild_def)
  next
    case False
    then have R: "t_comparator T d dx = RIGHT" by (cases "t_comparator T d dx") auto
    have "repr_ctx (t_nodes T) (t_root T) (FR l x # c) (rootptr r)"
         "repr (t_nodes T) (hole_parent (FR l x # c)) r"
      using Node.prems x by auto
    from Node.IH(2)[OF this] show ?thesis using Node.prems x R
      by (subst insertNode_loop.simps) (simp add: getChild_def)
  qed
qed

lemma path_bottom:
  "path cmp d t = FL x r # cs \<Longrightarrow> cmp d (ldata x) = LEFT"
  "path cmp d t = FR l x # cs \<Longrightarrow> cmp d (ldata x) = RIGHT"
proof (induction t arbitrary: cs)
  case (Node tl y tr)
  { case 1 then show ?case using Node(1)[of "butlast cs"] Node(3)[of "butlast cs"]
      apply (cases "cmp d (ldata y)")
       apply (auto simp: append_eq_Cons_conv split: if_splits)
      done }
  { case 2 then show ?case using Node(2)[of "butlast cs"] Node(4)[of "butlast cs"]
      apply (cases "cmp d (ldata y)")
       apply (auto simp: append_eq_Cons_conv split: if_splits)
      done }
qed simp_all

lemma insertNode_sim:
  assumes wf: "repr (t_nodes T) None t" "t_root T = rootptr t" "distinct (addrs t)"
  shows "\<exists>T2. insertNode T d = Some (Inr (T2, Some (length (t_nodes T)))) \<and>
      repr_ctx (t_nodes T2) (t_root T2) (path (t_comparator T) d t) (Some (length (t_nodes T))) \<and>
      repr (t_nodes T2) (hole_parent (path (t_comparator T) d t))
        (Node Leaf (length (t_nodes T), RED, d) Leaf) \<and>
      length (t_nodes T2) = Suc (length (t_nodes T)) \<and> t_comparator T2 = t_comparator T \<and>
      t_size T2 = t_size T + 1"
proof -
  define z where "z = length (t_nodes T)"
  define c where "c = path (t_comparator T) d t"
  define T0 where "T0 = T\<lparr>t_nodes := t_nodes T @ [new_Node d]\<rparr>"
  have pc: "plug c Leaf = t" by (simp add: c_def plug_path)
  have sub: "set (caddrs c) \<subseteq> set (addrs t)" using set_addrs_plug[of c Leaf] pc by simp
  have dc: "distinct (caddrs c)" using distinct_addrs_plug[of c Leaf] pc wf(3) by simp
  have fresh: "z \<notin> set (caddrs c)" using sub repr_bound[OF wf(1)] by (auto simp: z_def)
  have "repr_ctx (t_nodes T0) (t_root T0) [] (rootptr t)" "repr (t_nodes T0) (hole_parent []) t"
    using wf by (simp_all add: T0_def repr_append)
  from insertNode_loop_sim[OF this, of d]
  have loop: "insertNode_loop T0 d None (t_root T0) = Some (Inr (hole_parent c))"
    and rc: "repr_ctx (t_nodes T0) (t_root T0) c None"
    using wf(2) by (simp_all add: T0_def c_def)
  have z0: "t_nodes T0 ! z = new_Node d" "length (t_nodes T0) = Suc z"
      "t_comparator T0 = t_comparator T" "t_size T0 = t_size T"
    by (simp_all add: T0_def z_def)
  have ins_eq: "insertNode T d =
      Some (bindE (setParent T0 (Some z) (hole_parent c)) (\<lambda>T1.
            bindE (if hole_parent c = None then Inr (T1\<lparr>t_root := Some z\<rparr>)
                   else bindE (deref T1 (hole_parent c)) (\<lambda>pn.
                     setChild T1 (hole_parent c) (Some z) (t_comparator T1 d (n_data pn)))) (\<lambda>T2.
              Inr (T2\<lparr>t_size := t_size T2 + 1\<rparr>, Some z))))"
    using loop unfolding T0_def z_def by (simp add: insertNode_def Let_def)
  have "\<exists>T2. insertNode T d = Some (Inr (T2, Some z)) \<and>
      repr_ctx (t_nodes T2) (t_root T2) c (Some z) \<and>
      repr (t_nodes T2) (hole_parent c) (Node Leaf (z, RED, d) Leaf) \<and>
      length (t_nodes T2) = Suc z \<and> t_comparator T2 = t_comparator T \<and>
      t_size T2 = t_size T + 1"
  proof (cases c rule: hole_parent.cases)
    case 1
    then show ?thesis using z0
      by (simp add: ins_eq setParent_def new_Node_def)
  next
    case (2 pa pc pd r cs)
    have "t_comparator T d pd = LEFT" using path_bottom(1)[of "t_comparator T" d t "(pa,pc,pd)" r cs] 2
      by (simp add: c_def)
    moreover have "pa \<noteq> z" "pa < length (t_nodes T0)" using fresh rc 2 by auto
    ultimately show ?thesis using z0 rc 2 fresh dc
      by (simp add: ins_eq setParent_def setChild_def new_Node_def repr_frame repr_ctx_frame)
  next
    case (3 l pa pc pd cs)
    have "t_comparator T d pd = RIGHT" using path_bottom(2)[of "t_comparator T" d t l "(pa,pc,pd)" cs] 3
      by (simp add: c_def)
    moreover have "pa \<noteq> z" "pa < length (t_nodes T0)" using fresh rc 3 by auto
    ultimately show ?thesis using z0 rc 3 fresh dc
      by (simp add: ins_eq setParent_def setChild_def new_Node_def repr_frame repr_ctx_frame)
  qed
  then show ?thesis by (simp add: z_def c_def)
qed

lemma keys_simps [simp]:
  "keys Leaf = []"
  "keys (Node l x r) = keys l @ kl x # keys r"
  by (simp_all add: keys_def)

lemma kl_setc [simp]: "kl (setc c x) = kl x"
  by (cases x) (simp add: kl_def)

lemma kl_tuple [simp]: "kl (a, c, d) = (a, d)"
  by (simp add: kl_def)

lemma keys_paint_root [simp]: "keys (paint_root c t) = keys t"
  by (cases t) auto

lemma keys_plug: "keys (plug c s) = before c @ keys s @ after c"
  by (induction c s rule: plug.induct) auto

lemma keys_fixup: "keys (fixup c s) = keys (plug c s)"
  by (induction c s rule: fixup.induct) (auto simp: keys_plug split: tree.splits)

lemma addrs_keys: "addrs t = map fst (keys t)"
  by (simp add: addrs_def keys_def kl_def)

lemma addrs_fixup: "addrs (fixup c s) = addrs (plug c s)"
  by (simp add: addrs_keys keys_fixup)

lemma keys_ins: "keys (ins cmp z d t) = before (path cmp d t) @ (z, d) # after (path cmp d t)"
  by (simp add: ins_def keys_fixup keys_plug)

lemma root_ok_path: "\<not> root_red t \<Longrightarrow> root_ok (path cmp d t)"
  by (cases t) (auto simp: root_ok_def)

lemma repr_paint_root:
  "repr h par t \<Longrightarrow> distinct (addrs t) \<Longrightarrow> rootptr t = Some a \<Longrightarrow>
     repr (h[a := (h ! a)\<lparr>n_color := c\<rparr>]) par (paint_root c t)"
  by (cases t) (auto simp: repr_frame)

lemma rootptr_paint_root [simp]: "rootptr (paint_root c t) = rootptr t"
  by (cases t) auto

lemma not_root_red_paint [simp]: "\<not> root_red (paint_root BLACK t)"
  by (cases t) auto

lemma Tree_insert_sim:
  assumes wf: "repr (t_nodes T) None t" "t_root T = rootptr t" "distinct (addrs t)" "\<not> root_red t"
  shows "\<exists>T'. Tree_insert T d = Some (Inr (T', Undefined)) \<and>
      repr (t_nodes T') None (ins (t_comparator T) (length (t_nodes T)) d t) \<and>
      t_root T' = rootptr (ins (t_comparator T) (length (t_nodes T)) d t) \<and>
      distinct (addrs (ins (t_comparator T) (length (t_nodes T)) d t)) \<and>
      length (t_nodes T') = Suc (length (t_nodes T)) \<and> t_comparator T' = t_comparator T \<and>
      t_size T' = t_size T + 1"
proof -
  define z where "z = length (t_nodes T)"
  define c where "c = path (t_comparator T) d t"
  let ?s = "Node Leaf (z, RED, d) Leaf"
  have pc: "plug c Leaf = t" by (simp add: c_def plug_path)
  have sub: "set (caddrs c) \<subseteq> set (addrs t)" using set_addrs_plug[of c Leaf] pc by simp
  have dc: "distinct (caddrs c)" using distinct_addrs_plug[of c Leaf] pc wf(3) by simp
  have fresh: "z \<notin> set (caddrs c)" using sub repr_bound[OF wf(1)] by (auto simp: z_def)
  from insertNode_sim[OF wf(1-3), of d] obtain T2 where 2:
    "insertNode T d = Some (Inr (T2, Some z))"
    "repr_ctx (t_nodes T2) (t_root T2) c (Some z)"
    "repr (t_nodes T2) (hole_parent c) ?s"
    "length (t_nodes T2) = Suc z" "t_comparator T2 = t_comparator T" "t_size T2 = t_size T + 1"
    unfolding z_def c_def by blast
  have "valid_node (t_nodes T2) z" using 2(3) by (rule repr_valid_node)
  from update_max_ok[OF this] obtain T2' where M:
    "bindE (Tree_getMax T2 (Some z)) (\<lambda>m. setMax T2 (Some z) (Some m)) = Inr T2'"
    "max_equiv (t_nodes T2) (t_nodes T2')" "t_root T2' = t_root T2"
    "t_comparator T2' = t_comparator T2" "t_size T2' = t_size T2" by blast
  have c2: "repr_ctx (t_nodes T2') (t_root T2') c (Some z)"
    using repr_ctx_max_equiv[OF M(2) 2(2)] M(3) by simp
  have s2: "repr (t_nodes T2') (hole_parent c) ?s"
    using repr_max_equiv[OF M(2) 2(3)] .
  have d2: "distinct (caddrs c @ addrs ?s)" using dc fresh by simp
  have rok: "root_ok c" unfolding c_def using wf(4) by (rule root_ok_path)
  from insert_loop_sim[OF c2 s2 d2 rok] obtain T3 where 3:
    "insert_loop T2' (Some z) = Some (Inr T3)"
    "repr (t_nodes T3) None (fixup c ?s)" "t_root T3 = rootptr (fixup c ?s)"
    "length (t_nodes T3) = length (t_nodes T2')" "t_comparator T3 = t_comparator T2'"
    "t_size T3 = t_size T2'" by blast
  have d3: "distinct (addrs (fixup c ?s))"
    using d2 by (simp add: addrs_fixup distinct_addrs_plug)
  have "z \<in> set (addrs (fixup c ?s))" by (simp add: addrs_fixup set_addrs_plug)
  then obtain a where a: "rootptr (fixup c ?s) = Some a" by (cases "fixup c ?s") auto
  then have al: "a < length (t_nodes T3)" using 3(2) by (rule repr_rootptr_bound[rotated])
  define T4 where "T4 = T3\<lparr>t_nodes := (t_nodes T3)[a := (t_nodes T3 ! a)\<lparr>n_color := BLACK\<rparr>]\<rparr>"
  have 4: "setColor T3 (t_root T3) BLACK = Inr T4" using 3(3) a al by (simp add: T4_def)
  have r4: "repr (t_nodes T4) None (paint_root BLACK (fixup c ?s))"
    unfolding T4_def using repr_paint_root[OF 3(2) d3 a] by simp
  have "Tree_insert T d = Some (Inr (T4, Undefined))"
    by (simp add: Tree_insert_def 2(1) M(1) 3(1) 4)
  moreover have "length (t_nodes T4) = Suc z"
    using 2(4) 3(4) max_equiv_length[OF M(2)] by (simp add: T4_def)
  ultimately show ?thesis using r4 3 2 M d3 a
    unfolding ins_def z_def[symmetric] c_def[symmetric]
    by (intro exI[of _ T4]) (simp add: T4_def addrs_keys)
qed

lemma lcolor_setc [simp]: "lcolor (setc c x) = c"
  by (cases x) simp

lemma plug_inv:
  "cinv c (bh s) \<Longrightarrow> invc s \<Longrightarrow> invh s \<Longrightarrow> (root_red s \<longrightarrow> \<not> frame_red c) \<Longrightarrow>
     invc (plug c s) \<and> invh (plug c s)"
proof (induction c s rule: plug.induct)
  case (1 s)
  then show ?case by simp
next
  case (2 x r c s)
  have "invc (plug c (Node s x r)) \<and> invh (plug c (Node s x r))"
  proof (rule "2.IH")
    show "cinv c (bh (Node s x r))" using "2.prems"(1) by simp
    show "invc (Node s x r)" using "2.prems" by auto
    show "invh (Node s x r)" using "2.prems" by simp
    show "root_red (Node s x r) \<longrightarrow> \<not> frame_red c" using "2.prems"(1) by simp
  qed
  then show ?case by simp
next
  case (3 l x c s)
  have "invc (plug c (Node l x s)) \<and> invh (plug c (Node l x s))"
  proof (rule "3.IH")
    show "cinv c (bh (Node l x s))" using "3.prems"(1) by simp
    show "invc (Node l x s)" using "3.prems" by auto
    show "invh (Node l x s)" using "3.prems" by simp
    show "root_red (Node l x s) \<longrightarrow> \<not> frame_red c" using "3.prems"(1) by simp
  qed
  then show ?case by simp
qed

lemma path_inv:
  "cinv c (bh t) \<Longrightarrow> invc t \<Longrightarrow> invh t \<Longrightarrow> (root_red t \<longrightarrow> \<not> frame_red c) \<Longrightarrow>
     cinv (path cmp d t @ c) 0"
proof (induction t arbitrary: c)
  case Leaf
  then show ?case by simp
next
  case (Node l x r)
  show ?case
  proof (cases "cmp d (ldata x) = LEFT")
    case True
    have "cinv (path cmp d l @ (FL x r # c)) 0"
    proof (rule Node.IH(1))
      show "cinv (FL x r # c) (bh l)" using Node.prems by simp
      show "invc l" "invh l" using Node.prems by simp_all
      show "root_red l \<longrightarrow> \<not> frame_red (FL x r # c)" using Node.prems by auto
    qed
    then show ?thesis using True by simp
  next
    case False
    have "cinv (path cmp d r @ (FR l x # c)) 0"
    proof (rule Node.IH(2))
      show "cinv (FR l x # c) (bh r)" using Node.prems by simp
      show "invc r" "invh r" using Node.prems by simp_all
      show "root_red r \<longrightarrow> \<not> frame_red (FR l x # c)" using Node.prems by auto
    qed
    then show ?thesis using False by simp
  qed
qed

lemma bh_paint_red: "root_red U \<Longrightarrow> bh (paint_root BLACK U) = Suc (bh U)"
  by (cases U) (auto elim: lcolor.elims)

lemma invc_paint [simp]: "invc U \<Longrightarrow> invc (paint_root BLACK U)"
  by (cases U) auto

lemma invh_paint [simp]: "invh (paint_root c U) = invh U"
  by (cases U) auto

lemma fixup_inv:
  "cinv c (bh s) \<Longrightarrow> root_ok c \<Longrightarrow> invc s \<Longrightarrow> invh s \<Longrightarrow> root_red s \<Longrightarrow>
     invc (fixup c s) \<and> invh (fixup c s)"
proof (induction c s rule: fixup.induct)
  case (1 s)
  then show ?case by simp
next
  case (2 f s)
  then have "invc (plug [f] s) \<and> invh (plug [f] s)"
    by (intro plug_inv) (auto simp: root_ok_def)
  then show ?case by simp
next
  case (3 p sib g U cs s)
  show ?case
  proof (cases "lcolor p = RED")
    case False
    with 3(2-) have "invc (plug (FL p sib # FL g U # cs) s) \<and> invh (plug (FL p sib # FL g U # cs) s)"
      by (intro plug_inv) auto
    then show ?thesis using False by simp
  next
    case True
    show ?thesis
    proof (cases "root_red U")
      case U: True
      have "invc (fixup cs (Node (Node s (setc BLACK p) sib) (setc RED g) (paint_root BLACK U))) \<and>
            invh (fixup cs (Node (Node s (setc BLACK p) sib) (setc RED g) (paint_root BLACK U)))"
        using 3(2-) True U by (intro 3(1)) (auto simp: bh_paint_red dest: root_ok_tl2)
      then show ?thesis using True U by simp
    next
      case U: False
      have "invc (plug cs (Node s (setc BLACK p) (Node sib (setc RED g) U))) \<and>
            invh (plug cs (Node s (setc BLACK p) (Node sib (setc RED g) U)))"
        using 3(2-) True U by (intro plug_inv) auto
      then show ?thesis using True U by simp
    qed
  qed
next
  case (4 sib p g U cs s)
  show ?case
  proof (cases "lcolor p = RED")
    case False
    with 4(2-) have "invc (plug (FR sib p # FL g U # cs) s) \<and> invh (plug (FR sib p # FL g U # cs) s)"
      by (intro plug_inv) auto
    then show ?thesis using False by simp
  next
    case True
    show ?thesis
    proof (cases "root_red U")
      case U: True
      have "invc (fixup cs (Node (Node sib (setc BLACK p) s) (setc RED g) (paint_root BLACK U))) \<and>
            invh (fixup cs (Node (Node sib (setc BLACK p) s) (setc RED g) (paint_root BLACK U)))"
        using 4(2-) True U by (intro 4(1)) (auto simp: bh_paint_red dest: root_ok_tl2)
      then show ?thesis using True U by simp
    next
      case U: False
      from 4(6) obtain l z r where s: "s = Node l z r" by (cases s) auto
      have "invc (plug cs (Node (Node sib p l) (setc BLACK z) (Node r (setc RED g) U))) \<and>
            invh (plug cs (Node (Node sib p l) (setc BLACK z) (Node r (setc RED g) U)))"
        using 4(2-) True U s by (intro plug_inv) auto
      then show ?thesis using True U s by simp
    qed
  qed
next
  case (5 sib p U g cs s)
  show ?case
  proof (cases "lcolor p = RED")
    case False
    with 5(2-) have "invc (plug (FR sib p # FR U g # cs) s) \<and> invh (plug (FR sib p # FR U g # cs) s)"
      by (intro plug_inv) auto
    then show ?thesis using False by simp
  next
    case True
    show ?thesis
    proof (cases "root_red U")
      case U: True
      have "invc (fixup cs (Node (paint_root BLACK U) (setc RED g) (Node sib (setc BLACK p) s))) \<and>
            invh (fixup cs (Node (paint_root BLACK U) (setc RED g) (Node sib (setc BLACK p) s)))"
        using 5(2-) True U by (intro 5(1)) (auto simp: bh_paint_red dest: root_ok_tl2)
      then show ?thesis using True U by simp
    next
      case U: False
      have "invc (plug cs (Node (Node U (setc RED g) sib) (setc BLACK p) s)) \<and>
            invh (plug cs (Node (Node U (setc RED g) sib) (setc BLACK p) s))"
        using 5(2-) True U by (intro plug_inv) auto
      then show ?thesis using True U by simp
    qed
  qed
next
  case (6 p sib U g cs s)
  show ?case
  proof (cases "lcolor p = RED")
    case False
    with 6(2-) have "invc (plug (FL p sib # FR U g # cs) s) \<and> invh (plug (FL p sib # FR U g # cs) s)"
      by (intro plug_inv) auto
    then show ?thesis using False by simp
  next
    case True
    show ?thesis
    proof (cases "root_red U")
      case U: True
      have "invc (fixup cs (Node (paint_root BLACK U) (setc RED g) (Node s (setc BLACK p) sib))) \<and>
            invh (fixup cs (Node (paint_root BLACK U) (setc RED g) (Node s (setc BLACK p) sib)))"
        using 6(2-) True U by (intro 6(1)) (auto simp: bh_paint_red dest: root_ok_tl2)
      then show ?thesis using True U by simp
    next
      case U: False
      from 6(6) obtain l z r where s: "s = Node l z r" by (cases s) auto
      have "invc (plug cs (Node (Node U (setc RED g) l) (setc BLACK z) (Node r p sib))) \<and>
            invh (plug cs (Node (Node U (setc RED g) l) (setc BLACK z) (Node r p sib)))"
        using 6(2-) True U s by (intro plug_inv) auto
      then show ?thesis using True U s by simp
    qed
  qed
qed

lemma ins_inv:
  assumes "invc t" "invh t" "\<not> root_red t"
  shows "invc (ins cmp z d t) \<and> invh (ins cmp z d t) \<and> \<not> root_red (ins cmp z d t)"
proof -
  have "cinv (path cmp d t @ []) 0" using assms by (intro path_inv) auto
  then have "invc (fixup (path cmp d t) (Node Leaf (z, RED, d) Leaf)) \<and>
             invh (fixup (path cmp d t) (Node Leaf (z, RED, d) Leaf))"
    using assms by (intro fixup_inv) (auto simp: root_ok_path)
  then show ?thesis by (simp add: ins_def)
qed

lemma dl_simps [simp]:
  "dl Leaf = []"
  "dl (Node l x r) = dl l @ ldata x # dl r"
  by (simp_all add: dl_def kl_def)

lemma before_append: "before (c1 @ c2) = before c2 @ before c1"
  by (induction c1 rule: before.induct) auto

lemma after_append: "after (c1 @ c2) = after c1 @ after c2"
  by (induction c1 rule: after.induct) auto

lemma ins_after_left:
  "ev_start d < ev_start y \<Longrightarrow> ins_after d (xs @ y # ys) = ins_after d xs @ y # ys"
  by (induction xs) auto

lemma ins_after_right:
  "\<forall>y \<in> set xs. ev_start y \<le> ev_start d \<Longrightarrow> ins_after d (xs @ ys) = xs @ ins_after d ys"
  by (induction xs) auto

lemma dl_ins_path:
  "sorted (map ev_start (dl t)) \<Longrightarrow>
     map snd (before (path Event_comparator d t)) @ d # map snd (after (path Event_comparator d t))
       = ins_after d (dl t)"
proof (induction t)
  case Leaf
  then show ?case by simp
next
  case (Node l x r)
  from Node.prems have sl: "sorted (map ev_start (dl l))" and sr: "sorted (map ev_start (dl r))"
    and le: "\<forall>y \<in> set (dl l). ev_start y \<le> ev_start (ldata x)"
    by (auto simp: sorted_append)
  show ?case
  proof (cases "ev_start d < ev_start (ldata x)")
    case True
    then show ?thesis using Node.IH(1)[OF sl]
      by (simp add: Event_comparator_def before_append after_append ins_after_left dl_def[symmetric] kl_def)
  next
    case False
    then have "\<forall>y \<in> set (dl l @ [ldata x]). ev_start y \<le> ev_start d" using le by auto
    from ins_after_right[OF this, of "dl r"] False show ?thesis using Node.IH(2)[OF sr]
      by (simp add: Event_comparator_def before_append after_append dl_def[symmetric] kl_def)
  qed
qed

lemma dl_ins:
  "sorted (map ev_start (dl t)) \<Longrightarrow> dl (ins Event_comparator z d t) = ins_after d (dl t)"
  using dl_ins_path[of t d] by (simp add: dl_def keys_ins)

lemma set_ins_after [simp]: "set (ins_after d xs) = insert d (set xs)"
  by (induction xs) auto

lemma sorted_ins_after:
  "sorted (map ev_start xs) \<Longrightarrow> sorted (map ev_start (ins_after d xs))"
  by (induction xs) (auto simp: less_imp_le)

lemma filter_ins_after:
  "sorted (map ev_start xs) \<Longrightarrow>
     filter (\<lambda>e. ev_start e = k) (ins_after d xs) =
       filter (\<lambda>e. ev_start e = k) xs @ (if ev_start d = k then [d] else [])"
proof (induction xs)
  case Nil
  then show ?case by simp
next
  case (Cons x xs)
  show ?case
  proof (cases "ev_start d < ev_start x")
    case True
    then have "\<forall>y \<in> set (x # xs). ev_start d < ev_start y" using Cons.prems by auto
    then have "ev_start d = k \<Longrightarrow> filter (\<lambda>e. ev_start e = k) (x # xs) = []"
      by (auto simp: filter_empty_conv)
    then show ?thesis using True by auto
  next
    case False
    then show ?thesis using Cons by auto
  qed
qed

lemma sorted_fold_ins_after:
  "sorted (map ev_start acc) \<Longrightarrow> sorted (map ev_start (fold ins_after es acc))"
  by (induction es arbitrary: acc) (auto simp: sorted_ins_after)

lemma filter_fold_ins_after:
  "sorted (map ev_start acc) \<Longrightarrow>
     filter (\<lambda>e. ev_start e = k) (fold ins_after es acc) =
       filter (\<lambda>e. ev_start e = k) acc @ filter (\<lambda>e. ev_start e = k) es"
  by (induction es arbitrary: acc) (auto simp: sorted_ins_after filter_ins_after)

lemma dl_ins_seq:
  "sorted (map ev_start (dl t)) \<Longrightarrow> dl (ins_seq Event_comparator z es t) = fold ins_after es (dl t)"
  by (induction es arbitrary: z t) (auto simp: dl_ins sorted_ins_after)

lemma rbt_repr_new: "rbt_repr (new_Tree cmp) Leaf"
  by (simp add: rbt_repr_def new_Tree_def)

lemma Tree_insert_rbt:
  assumes "rbt_repr T t"
  shows "\<exists>T'. Tree_insert T d = Some (Inr (T', Undefined)) \<and>
      rbt_repr T' (ins (t_comparator T) (length (t_nodes T)) d t) \<and>
      length (t_nodes T') = Suc (length (t_nodes T)) \<and> t_comparator T' = t_comparator T \<and>
      t_size T' = t_size T + 1"
proof -
  from assms have wf: "repr (t_nodes T) None t" "t_root T = rootptr t" "distinct (addrs t)"
    "\<not> root_red t" and inv: "invc t" "invh t" by (simp_all add: rbt_repr_def)
  from Tree_insert_sim[OF wf, of d] ins_inv[OF inv wf(4)] show ?thesis
    by (auto simp: rbt_repr_def)
qed

lemma insert_all_rbt:
  assumes "rbt_repr T t"
  shows "\<exists>T'. insert_all T es = Some (Inr T') \<and>
      rbt_repr T' (ins_seq (t_comparator T) (length (t_nodes T)) es t) \<and>
      length (t_nodes T') = length (t_nodes T) + length es \<and> t_comparator T' = t_comparator T \<and>
      t_size T' = t_size T + length es"
  using assms
proof (induction es arbitrary: T t)
  case Nil
  then show ?case by simp
next
  case (Cons d es)
  from Tree_insert_rbt[OF Cons.prems, of d] obtain T1 where 1:
    "Tree_insert T d = Some (Inr (T1, Undefined))"
    "rbt_repr T1 (ins (t_comparator T) (length (t_nodes T)) d t)"
    "length (t_nodes T1) = Suc (length (t_nodes T))" "t_comparator T1 = t_comparator T"
    "t_size T1 = t_size T + 1" by blast
  from Cons.IH[OF 1(2)] obtain T' where
    "insert_all T1 es = Some (Inr T')"
    "rbt_repr T' (ins_seq (t_comparator T1) (length (t_nodes T1)) es (ins (t_comparator T) (length (t_nodes T)) d t))"
    "length (t_nodes T') = length (t_nodes T1) + length es" "t_comparator T' = t_comparator T1"
    "t_size T' = t_size T1 + length es" by blast
  then show ?case using 1 by (intro exI[of _ T']) simp
qed

lemma climb_None: "climb c s = None \<Longrightarrow> after c = []"
  by (induction c s rule: climb.induct) auto

lemma climb_Some:
  "climb c s = Some (c', s') \<Longrightarrow> zip_ok T c s \<Longrightarrow>
     zip_ok T c' s' \<and> (\<exists>l x r. s' = Node l x r \<and> after c = kl x # keys r @ after c')"
proof (induction c s rule: climb.induct)
  case (2 x r cs s)
  obtain a cl d where x: "x = (a, cl, d)" by (cases x) auto
  from 2 show ?case unfolding x by (auto simp: zip_ok_def)
next
  case (3 l x cs s)
  obtain a cl d where x: "x = (a, cl, d)" by (cases x) auto
  have "zip_ok T cs (Node l x s)" using 3(3) unfolding x by (auto simp: zip_ok_def)
  from 3(1)[OF 3(2)[simplified] this] show ?case by simp
qed simp

lemma successor_loop_sim:
  "zip_ok T c s \<Longrightarrow> s \<noteq> Leaf \<Longrightarrow>
     successor_loop T (rootptr s) (hole_parent c) =
       Some (Inr (case climb c s of None \<Rightarrow> None | Some (c', s') \<Rightarrow> rootptr s'))"
proof (induction c s rule: climb.induct)
  case (1 s)
  then show ?case by (subst successor_loop.simps) simp
next
  case (2 x r cs s)
  obtain a cl d where x: "x = (a, cl, d)" by (cases x) auto
  obtain sl z zc zd sr where s: "s = Node sl (z, zc, zd) sr" using 2(2) by (cases s) auto
  from 2 show ?case unfolding x s
    by (subst successor_loop.simps) (auto simp: zip_ok_def getChild_def rootptr_notin')
next
  case (3 l x cs s)
  obtain a cl d where x: "x = (a, cl, d)" by (cases x) auto
  obtain sl z zc zd sr where s: "s = Node sl (z, zc, zd) sr" using 3(3) by (cases s) auto
  have "zip_ok T cs (Node l x s)" using 3(2) unfolding x by (auto simp: zip_ok_def)
  from 3(1)[OF this] have "successor_loop T (Some a) (hole_parent cs) =
      Some (Inr (case climb cs (Node l x s) of None \<Rightarrow> None | Some (c', s') \<Rightarrow> rootptr s'))"
    unfolding x by simp
  then show ?case using 3(2) unfolding x s
    by (subst successor_loop.simps) (auto simp: zip_ok_def getChild_def getParent_def)
qed

lemma lmost_props:
  "lmost c t = (c', s') \<Longrightarrow> zip_ok T c t \<Longrightarrow> t \<noteq> Leaf \<Longrightarrow>
     zip_ok T c' s' \<and> (\<exists>x r. s' = Node Leaf x r \<and> keys t @ after c = kl x # keys r @ after c')"
proof (induction c t rule: lmost.induct)
  case (2 c l x r)
  obtain a cl d where x: "x = (a, cl, d)" by (cases x) auto
  show ?case
  proof (cases "l = Leaf")
    case True
    then show ?thesis using 2(2,3) by (auto simp: x)
  next
    case False
    have "zip_ok T (FL x r # c) l" using 2(3) unfolding x by (auto simp: zip_ok_def)
    moreover have "lmost (FL x r # c) l = (c', s')" using 2(2) False by simp
    ultimately show ?thesis using 2(1)[OF False _ _ False] by auto
  qed
qed simp

lemma minimum_loop_sim:
  "zip_ok T c t \<Longrightarrow> t \<noteq> Leaf \<Longrightarrow>
     minimum_loop T (rootptr t) = Some (Inr (rootptr (snd (lmost c t))))"
proof (induction c t rule: lmost.induct)
  case (2 c l x r)
  obtain a cl d where x: "x = (a, cl, d)" by (cases x) auto
  show ?case
  proof (cases "l = Leaf")
    case True
    then show ?thesis using 2(2) unfolding x
      by (subst minimum_loop.simps) (auto simp: zip_ok_def getChild_def)
  next
    case False
    have "zip_ok T (FL x r # c) l" using 2(2) unfolding x by (auto simp: zip_ok_def)
    from 2(1)[OF False this False] have "minimum_loop T (rootptr l) =
       Some (Inr (rootptr (snd (lmost (FL x r # c) l))))" .
    moreover obtain b where "rootptr l = Some b" using False by (cases l) auto
    ultimately show ?thesis using 2(2) False unfolding x
      by (subst minimum_loop.simps) (auto simp: zip_ok_def getChild_def)
  qed
qed simp

lemma minimum_Some: "minimum T (Some a) = minimum_loop T (Some a)"
  by (simp add: minimum_def)

lemma successor_sim:
  assumes "zip_ok T c (Node l x r)"
  shows "successor T (Some (fst x)) =
           Some (Inr (case nxt c (Node l x r) of None \<Rightarrow> None | Some (c', s') \<Rightarrow> rootptr s'))"
    and "case nxt c (Node l x r) of None \<Rightarrow> keys r @ after c = []
         | Some (c', s') \<Rightarrow> zip_ok T c' s' \<and>
             (\<exists>l' x' r'. s' = Node l' x' r' \<and> keys r @ after c = kl x' # keys r' @ after c')"
proof -
  obtain a cl d where x: "x = (a, cl, d)" by (cases x) auto
  show "successor T (Some (fst x)) =
           Some (Inr (case nxt c (Node l x r) of None \<Rightarrow> None | Some (c', s') \<Rightarrow> rootptr s'))"
  proof (cases "r = Leaf")
    case True
    from successor_loop_sim[OF assms] show ?thesis using assms True unfolding x
      by (simp add: successor_def nxt_def zip_ok_def getChild_def getParent_def)
  next
    case False
    then obtain b where b: "rootptr r = Some b" by (cases r) auto
    have z: "zip_ok T (FR l x # c) r" using assms unfolding x by (auto simp: zip_ok_def)
    from minimum_loop_sim[OF z False] show ?thesis using assms False b unfolding x
      by (simp add: successor_def nxt_def zip_ok_def getChild_def minimum_Some split: prod.splits)
  qed
  show "case nxt c (Node l x r) of None \<Rightarrow> keys r @ after c = []
         | Some (c', s') \<Rightarrow> zip_ok T c' s' \<and>
             (\<exists>l' x' r'. s' = Node l' x' r' \<and> keys r @ after c = kl x' # keys r' @ after c')"
  proof (cases "r = Leaf")
    case True
    then show ?thesis using climb_None[of c "Node l x r"] climb_Some[of c "Node l x r" _ _ T] assms
      by (auto simp: nxt_def split: option.splits)
  next
    case False
    have z: "zip_ok T (FR l x # c) r" using assms unfolding x by (auto simp: zip_ok_def)
    obtain c' s' where l: "lmost (FR l x # c) r = (c', s')" by (cases "lmost (FR l x # c) r") auto
    from lmost_props[OF l z False] show ?thesis using False l by (auto simp: nxt_def)
  qed
qed

lemma getOrderedData_loop_sim:
  "zip_ok T c (Node l x r) \<Longrightarrow>
     getOrderedData_loop T (Some (fst x)) acc =
       Some (Inr (acc @ ldata x # map snd (keys r @ after c)))"
proof (induction "length (keys r @ after c)" arbitrary: c l x r acc)
  case 0
  obtain a cl d where x: "x = (a, cl, d)" by (cases x) auto
  from 0(1) have e: "keys r @ after c = []" by simp
  from successor_sim[OF 0(2)] e have "successor T (Some (fst x)) = Some (Inr None)"
    by (auto split: option.splits)
  then show ?case using 0(2) e unfolding x
    by (subst getOrderedData_loop.simps, simp add: zip_ok_def)
       (subst getOrderedData_loop.simps, simp)
next
  case (Suc n)
  obtain a cl d where x: "x = (a, cl, d)" by (cases x) auto
  show ?case
  proof (cases "nxt c (Node l x r)")
    case None
    with successor_sim(2)[OF Suc(3)] Suc(2) show ?thesis by simp
  next
    case (Some p)
    obtain c' s' where p: "p = (c', s')" by (cases p) auto
    from successor_sim(2)[OF Suc(3)] Some p obtain l' x' r' where
      z: "zip_ok T c' (Node l' x' r')" and s': "s' = Node l' x' r'"
      and k: "keys r @ after c = kl x' # keys r' @ after c'" by auto
    obtain a' cl' d' where x': "x' = (a', cl', d')" by (cases x') auto
    have s: "successor T (Some a) = Some (Inr (Some a'))"
      using successor_sim(1)[OF Suc(3)] Some p s' x' x by simp
    have "n = length (keys r' @ after c')" using Suc(2) k by simp
    from Suc(1)[OF this z, of "acc @ [ldata x]"] show ?thesis using s Suc(3) k unfolding x x'
      by (subst getOrderedData_loop.simps) (simp add: zip_ok_def)
  qed
qed

lemma getOrderedData_sim:
  assumes "repr (t_nodes T) None t" "t_root T = rootptr t" "distinct (addrs t)" "t \<noteq> Leaf"
  shows "getOrderedData T arg = Some (Inr (dl t))"
proof -
  have z: "zip_ok T [] t" using assms by (simp add: zip_ok_def)
  obtain c' s' where l: "lmost [] t = (c', s')" by (cases "lmost [] t") auto
  from lmost_props[OF l z assms(4)] obtain x r where
    z': "zip_ok T c' (Node Leaf x r)" and s': "s' = Node Leaf x r"
    and k: "keys t = kl x # keys r @ after c'" by auto
  have m: "minimum T None = Some (Inr (Some (fst x)))"
    using minimum_loop_sim[OF z assms(4)] l s' assms(2) assms(4)
    by (cases x) (auto simp: minimum_def)
  show ?thesis using getOrderedData_loop_sim[OF z', of "[]"] m k
    by (simp add: getOrderedData_def dl_def kl_def)
qed

lemma subseq_sorted: "subseq xs ys \<Longrightarrow> sorted (map f ys) \<Longrightarrow> sorted (map f xs)"
proof (induction rule: list_emb.induct)
  case (list_emb_Cons xs ys y)
  then show ?case by simp
next
  case (list_emb_Cons2 x y xs ys)
  then have "set xs \<subseteq> set ys" by (auto dest: list_emb_set)
  with list_emb_Cons2 show ?case by auto
qed simp

lemma search_left_ok:
  "repr (t_nodes T) par l \<Longrightarrow> \<exists>b. search_left T q (rootptr l) = Inr b \<and> (b \<longrightarrow> l \<noteq> Leaf)"
  by (cases l) (auto simp: search_left_def getMax_def)

lemma searchInterval_sim:
  "repr (t_nodes T) par t \<Longrightarrow> t \<noteq> Leaf \<Longrightarrow>
     \<exists>res. searchInterval T q (rootptr t) = Some (Inr res) \<and> subseq res (dl t) \<and>
       (\<forall>e \<in> set res. isColliding e q)"
proof (induction t arbitrary: par)
  case Leaf
  then show ?case by simp
next
  case (Node l x r)
  obtain a cl d where x: "x = (a, cl, d)" by (cases x) auto
  have rl: "repr (t_nodes T) (Some a) l" and rr: "repr (t_nodes T) (Some a) r"
    and al: "a < length (t_nodes T)" and fields: "n_data (t_nodes T ! a) = d"
      "n_left (t_nodes T ! a) = rootptr l" "n_right (t_nodes T ! a) = rootptr r"
    using Node.prems unfolding x by auto
  from search_left_ok[OF rl, of q] obtain gl where
    gl: "search_left T q (rootptr l) = Inr gl" "gl \<longrightarrow> l \<noteq> Leaf" by blast
  have "\<exists>r1. (if gl then searchInterval T q (rootptr l) else Some (Inr [])) = Some (Inr r1) \<and>
      subseq r1 (dl l) \<and> (\<forall>e \<in> set r1. isColliding e q)"
    using Node.IH(1)[OF rl] gl(2) by (cases gl) auto
  then obtain r1 where r1: "(if gl then searchInterval T q (rootptr l) else Some (Inr [])) = Some (Inr r1)"
    "subseq r1 (dl l)" "\<forall>e \<in> set r1. isColliding e q" by blast
  define gr where "gr \<longleftrightarrow> rootptr r \<noteq> None \<and> ev_start d \<le> ev_end q"
  have "gr \<longrightarrow> r \<noteq> Leaf" by (auto simp: gr_def)
  then have "\<exists>r2. (if gr then searchInterval T q (rootptr r) else Some (Inr [])) = Some (Inr r2) \<and>
      subseq r2 (dl r) \<and> (\<forall>e \<in> set r2. isColliding e q)"
    using Node.IH(2)[OF rr] by (cases gr) auto
  then obtain r2 where r2: "(if gr then searchInterval T q (rootptr r) else Some (Inr [])) = Some (Inr r2)"
    "subseq r2 (dl r)" "\<forall>e \<in> set r2. isColliding e q" by blast
  have "searchInterval T q (Some a) =
      Some (Inr ((if isColliding d q then r1 @ [d] else r1) @ r2))"
    using al fields gl(1) r1(1) r2(1)
    by (subst searchInterval.simps) (simp add: getChild_def gr_def Let_def)
  moreover have "subseq ((if isColliding d q then r1 @ [d] else r1) @ r2) (dl l @ d # dl r)"
    using r1(2) r2(2) by (auto intro!: list_emb_append_mono)
  ultimately show ?case using r1(3) r2(3) unfolding x by auto
qed

lemma erase_simps [simp]:
  "erase h Leaf = Leaf"
  "erase h (Node l x r) = Node (erase h l) (h ! fst x) (erase h r)"
  by (simp_all add: erase_def)

lemma tree_of_repr:
  "repr h par t \<Longrightarrow> height t < k \<Longrightarrow> tree_of k h (rootptr t) = Some (erase h t)"
proof (induction t arbitrary: par k)
  case Leaf
  then show ?case by (cases k) auto
next
  case (Node l x r)
  obtain a cl d where x: "x = (a, cl, d)" by (cases x) auto
  from Node.prems(2) obtain k' where k: "k = Suc k'" by (cases k) auto
  have "height l < k'" "height r < k'" using Node.prems(2) k by auto
  with Node.IH[of "Some a" k'] Node.prems(1) show ?case unfolding x k by auto
qed

lemma height_le_addrs: "height t \<le> length (addrs t)"
  by (induction t) auto

lemma addrs_length_le:
  assumes "repr h par t" "distinct (addrs t)"
  shows "length (addrs t) \<le> length h"
proof -
  have "set (addrs t) \<subseteq> {..<length h}" using repr_bound[OF assms(1)] by auto
  then have "card (set (addrs t)) \<le> card {..<length h}" by (intro card_mono) auto
  then show ?thesis using distinct_card[OF assms(2)] by simp
qed

lemma the_tree_repr:
  assumes "repr (t_nodes T) None t" "t_root T = rootptr t" "distinct (addrs t)"
  shows "the_tree T = Some (erase (t_nodes T) t)"
  unfolding the_tree_def assms(2)
  using addrs_length_le[OF assms(1,3)] height_le_addrs[of t]
  by (intro tree_of_repr[OF assms(1)]) simp

lemma red_root_erase: "repr h par t \<Longrightarrow> red_root (erase h t) = root_red t"
  by (cases t) auto

lemma no_red_red_erase: "repr h par t \<Longrightarrow> invc t \<Longrightarrow> no_red_red (erase h t)"
proof (induction t arbitrary: par)
  case (Node l x r)
  obtain a cl d where x: "x = (a, cl, d)" by (cases x) auto
  from Node show ?case unfolding x
    using red_root_erase[of h "Some a" l] red_root_erase[of h "Some a" r] by auto
qed simp

lemma black_counts_erase: "repr h par t \<Longrightarrow> invh t \<Longrightarrow> set (black_counts (erase h t)) = {bh t}"
proof (induction t arbitrary: par)
  case (Node l x r)
  obtain a cl d where x: "x = (a, cl, d)" by (cases x) auto
  have "set (black_counts (erase h l)) = {bh l}" "set (black_counts (erase h r)) = {bh l}"
    using Node unfolding x by auto
  then show ?case using Node.prems unfolding x by (cases cl) (auto simp: image_Un)
qed simp

lemma black_balanced_erase: "repr h par t \<Longrightarrow> invh t \<Longrightarrow> black_balanced (erase h t)"
proof -
  assume a: "repr h par t" "invh t"
  have s: "set (black_counts (erase h t)) = {bh t}" using a by (rule black_counts_erase)
  then have "black_counts (erase h t) \<noteq> []" by auto
  then have "hd (black_counts (erase h t)) \<in> set (black_counts (erase h t))" by simp
  then show ?thesis using s by (auto simp: black_balanced_def)
qed

lemma insert_all_new:
  "\<exists>T. insert_all (new_Tree cmp) es = Some (Inr T) \<and>
        rbt_repr T (ins_seq cmp 0 es Leaf) \<and> length (t_nodes T) = length es \<and>
        t_comparator T = cmp \<and> t_size T = length es"
  using insert_all_rbt[OF rbt_repr_new, of cmp es] by (simp add: new_Tree_def)

lemma rb_after_inserts_aux:
  "\<exists>T t. insert_all (new_Tree cmp) es = Some (Inr T) \<and> the_tree T = Some t \<and>
          \<not> red_root t \<and> no_red_red t \<and> black_balanced t"
proof -
  from insert_all_new[of cmp es] obtain T where T:
    "insert_all (new_Tree cmp) es = Some (Inr T)" "rbt_repr T (ins_seq cmp 0 es Leaf)" by blast
  let ?t = "ins_seq cmp 0 es Leaf"
  from T(2) have r: "repr (t_nodes T) None ?t" "t_root T = rootptr ?t" "distinct (addrs ?t)"
    "\<not> root_red ?t" "invc ?t" "invh ?t" by (simp_all add: rbt_repr_def)
  have "the_tree T = Some (erase (t_nodes T) ?t)" using r(1-3) by (rule the_tree_repr)
  moreover have "\<not> red_root (erase (t_nodes T) ?t)" using red_root_erase[OF r(1)] r(4) by simp
  moreover have "no_red_red (erase (t_nodes T) ?t)" using r(1,5) by (rule no_red_red_erase)
  moreover have "black_balanced (erase (t_nodes T) ?t)" using r(1,6) by (rule black_balanced_erase)
  ultimately show ?thesis using T(1) by blast
qed

lemma root_black_erase: "repr h par t \<Longrightarrow> \<not> root_red t \<Longrightarrow> root_black (erase h t)"
  by (cases t) (auto simp: root_black_def intro: color.exhaust)

lemma repr_data:
  "repr h par t \<Longrightarrow> (a, d) \<in> set (keys t) \<Longrightarrow> a < length h \<and> n_data (h ! a) = d"
  by (induction h par t rule: repr.induct) auto

lemma ins_seq_Leaf_iff: "ins_seq cmp z es t = Leaf \<longleftrightarrow> es = [] \<and> t = Leaf"
proof (induction es arbitrary: z t)
  case (Cons d es)
  have "(z, d) \<in> set (keys (ins cmp z d t))" by (simp add: keys_ins)
  then have "ins cmp z d t \<noteq> Leaf" by auto
  then show ?case using Cons by simp
qed simp

lemma searchInterval_None:
  "t_root T = Some a \<Longrightarrow> searchInterval T q None = searchInterval T q (Some a)"
  by (simp add: searchInterval.simps[of T q None] searchInterval.simps[of T q "Some a"])

lemma ordered_fold: "sorted (map ev_start (fold ins_after es []))"
  by (rule sorted_fold_ins_after) simp

lemma length_ins_after [simp]: "length (ins_after d xs) = Suc (length xs)"
  by (induction xs) auto

lemma length_fold_ins_after: "length (fold ins_after es acc) = length acc + length es"
  by (induction es arbitrary: acc) auto

lemma set_fold_ins_after: "set (fold ins_after es acc) = set acc \<union> set es"
  by (induction es arbitrary: acc) auto

lemma minimum_empty: "t_root T = None \<Longrightarrow> minimum T None = Some (Inl TypeError)"
  by (simp add: minimum_def minimum_loop.simps getChild_def)

lemma maximum_empty: "t_root T = None \<Longrightarrow> maximum T None = Some (Inl TypeError)"
  by (simp add: maximum_def maximum_loop.simps getChild_def)

lemma bins_ok_addToBin:
  "bins_ok bins \<Longrightarrow> ev_start e \<le> ev_end e \<Longrightarrow> bins_ok (addToBin e bins)"
proof (induction bins)
  case Nil
  then show ?case by (simp add: bins_ok_def)
next
  case (Cons b bins)
  then show ?case by (auto simp: bins_ok_def sorted_wrt_append)
qed

lemma placed_addToBin: "placed (addToBin e bins) x \<longleftrightarrow> x = e \<or> placed bins x"
  by (induction bins) (auto simp: placed_def)

lemma placed_Nil [simp]: "\<not> placed [] x"
  by (simp add: placed_def)

lemma bins_inv_Nil [simp]: "bins_inv S WF []"
  by (simp add: bins_inv_def bins_ok_def)

lemma bins_inv_addToBin:
  "bins_inv S WF bins \<Longrightarrow> e \<in> S \<Longrightarrow> (WF \<longrightarrow> ev_start e \<le> ev_end e) \<Longrightarrow>
     bins_inv S WF (addToBin e bins)"
  by (auto simp: bins_inv_def placed_addToBin intro: bins_ok_addToBin)

lemma renderEvents_batch:
  "renderEvents en C bins = batch_html en (o_width (c_options C)) bins"
proof -
  have "map (\<lambda>(level, b). map (\<lambda>event.
           Event_render en event (double (o_width (c_options C) / of_nat (length bins))) level)
          (b_events b)) (enumerate 0 bins) =
        map (\<lambda>columnIndex. map (positioned en (o_width (c_options C)) (length bins) columnIndex)
          (b_events (bins ! columnIndex))) [0..<length bins]"
    by (rule nth_equalityI)
       (auto simp: nth_enumerate_eq Event_render_def positioned_def duration_def Let_def)
  then show ?thesis by (simp add: renderEvents_def batch_html_def)
qed

lemma mu_mono:
  assumes "\<forall>i. c_renderedEvents C i = Some True \<longrightarrow> c_renderedEvents C' i = Some True"
  shows "mu ds C' \<le> mu ds C"
  unfolding mu_def using assms by (intro card_mono) auto

lemma mu_mark:
  assumes "e \<in> set ds" "\<not> isRendered C e"
  shows "mu ds (setIsRendered C e) < mu ds C"
proof -
  have "{i \<in> ev_id ` set ds. c_renderedEvents (setIsRendered C e) i \<noteq> Some True}
        \<subset> {i \<in> ev_id ` set ds. c_renderedEvents C i \<noteq> Some True}"
    using assms by (auto simp: setIsRendered_def isRendered_def)
  then show ?thesis unfolding mu_def by (intro psubset_card_mono) auto
qed

lemma getCollisions_ok:
  assumes "repr (t_nodes T) None t" "t_root T = rootptr t" "c_tree C = Some T" "t \<noteq> Leaf"
  shows "\<exists>coll. getCollisions C e = Some (Inr coll) \<and> set coll \<subseteq> set (dl t)"
proof -
  obtain a where a: "rootptr t = Some a" using assms(4) by (cases t) auto
  from searchInterval_sim[OF assms(1,4), of e] obtain res where
    "searchInterval T e (rootptr t) = Some (Inr res)" "subseq res (dl t)" by blast
  then show ?thesis using assms(2,3) a searchInterval_None[of T a e] list_emb_set[of _ res "dl t"]
    by (auto simp: getCollisions_def)
qed

lemma render_rec_total:
  assumes tree: "repr (t_nodes T) None t" "t_root T = rootptr t"
    and wfa: "WF \<longrightarrow> (\<forall>e \<in> set (dl t). ev_start e \<le> ev_end e)"
    and inja: "INJ \<longrightarrow> inj_on ev_id (set (dl t))"
  shows "c_tree C = Some T \<Longrightarrow> set events \<subseteq> set (dl t) \<Longrightarrow>
     bins_inv (set (dl t)) WF (or_empty bref) \<Longrightarrow>
     \<exists>html' bref' C' batches. render_rec en C events bref html = Some (Inr (html', bref'), C') \<and>
        (\<forall>tr. render_bins C events bref tr = Some (Inr (tr @ batches, bref'), C')) \<and>
        render_post T (set (dl t)) WF INJ en C events bref html html' bref' C' batches"
proof (induction "mu (dl t) C" arbitrary: C events bref html rule: less_induct)
  case less
  note outer = less.hyps
  from less.prems(1,2,3) show ?case
  proof (induction events)
    case Nil
    have "render_post T (set (dl t)) WF INJ en C [] bref html html bref C []"
      using Nil by (simp add: render_post_def)
    moreover have "render_rec en C [] bref html = Some (Inr (html, bref), C)"
      by (subst render_rec.simps) simp
    moreover have "\<forall>tr. render_bins C [] bref tr = Some (Inr (tr @ [], bref), C)"
      by (subst render_bins.simps) simp
    ultimately show ?case by blast
  next
    case (Cons e rest)
    show ?case
    proof (cases "isRendered C e")
      case True
      have rs: "set rest \<subseteq> set (dl t)" using Cons.prems(2) by simp
      from Cons.IH[OF Cons.prems(1) rs Cons.prems(3)] obtain html' bref' C' batches where
        r: "render_rec en C rest bref html = Some (Inr (html', bref'), C')"
        and rb: "\<forall>tr. render_bins C rest bref tr = Some (Inr (tr @ batches, bref'), C')"
        and p: "render_post T (set (dl t)) WF INJ en C rest bref html html' bref' C' batches"
        by blast
      have "render_rec en C (e # rest) bref html = Some (Inr (html', bref'), C')"
        using r True by (subst render_rec.simps) simp
      moreover have "\<forall>tr. render_bins C (e # rest) bref tr = Some (Inr (tr @ batches, bref'), C')"
        using rb True by (subst render_bins.simps) simp
      moreover have "render_post T (set (dl t)) WF INJ en C (e # rest) bref html html' bref' C' batches"
        using p True unfolding render_post_def isRendered_def by simp
      ultimately show ?thesis by blast
    next
      case False
      define C1 where "C1 = setIsRendered C e"
      define bins1 where "bins1 = addToBin e (or_empty bref)"
      have e: "e \<in> set (dl t)" using Cons.prems(2) by simp
      then have ne: "t \<noteq> Leaf" by auto
      have c1: "c_tree C1 = Some T" "c_options C1 = c_options C" "c_events C1 = c_events C"
        using Cons.prems(1) by (simp_all add: C1_def setIsRendered_def)
      have m1: "mu (dl t) C1 < mu (dl t) C" unfolding C1_def using e False by (rule mu_mark)
      have r1: "\<And>i. c_renderedEvents C1 i = Some True \<longleftrightarrow>
                  c_renderedEvents C i = Some True \<or> i = ev_id e"
        by (auto simp: C1_def setIsRendered_def)
      have j1: "bins_inv (set (dl t)) WF (or_empty (Some bins1))"
        using Cons.prems(3) wfa e by (auto simp: bins1_def or_empty_def intro: bins_inv_addToBin)
      have p1: "\<And>x. placed bins1 x \<longleftrightarrow> x = e \<or> placed (or_empty bref) x"
        by (simp add: bins1_def placed_addToBin)
      from getCollisions_ok[OF tree c1(1) ne, of e] obtain coll where
        coll: "getCollisions C1 e = Some (Inr coll)" "set coll \<subseteq> set (dl t)" by blast
      from outer[OF m1 c1(1) coll(2) j1, of "[]"] obtain html1 bref1 C2 batches1 where
        run1: "render_rec en C1 coll (Some bins1) [] = Some (Inr (html1, bref1), C2)"
        and runb1: "\<forall>tr. render_bins C1 coll (Some bins1) tr = Some (Inr (tr @ batches1, bref1), C2)"
        and post1: "render_post T (set (dl t)) WF INJ en C1 coll (Some bins1) [] html1 bref1 C2 batches1"
        by blast
      from post1 have 2:
           "c_tree C2 = Some T" "c_options C2 = c_options C1" "c_events C2 = c_events C1"
           "\<forall>i. c_renderedEvents C1 i = Some True \<longrightarrow> c_renderedEvents C2 i = Some True"
           "bref1 \<noteq> None" "bins_inv (set (dl t)) WF (or_empty bref1)"
           "\<forall>x. placed bins1 x \<longrightarrow> placed (or_empty bref1) x"
           "html1 = concat (map (batch_html en (o_width (c_options C1))) batches1)"
           "\<forall>b \<in> set batches1. bins_inv (set (dl t)) WF b"
           "INJ \<longrightarrow> (\<forall>x \<in> set (dl t). isRendered C2 x \<and> \<not> isRendered C1 x \<longrightarrow>
               placed (or_empty bref1) x \<or> (\<exists>b \<in> set batches1. placed b x))"
        unfolding render_post_def by (simp_all add: or_empty_def)
      define bref2 where "bref2 = (if bref \<noteq> None then bref1 else None)"
      define html2 where "html2 = (html @ html1) @ renderEvents en C2 (or_empty bref1)"
      have m2: "mu (dl t) C2 < mu (dl t) C" using mu_mono[OF 2(4), of "dl t"] m1 by simp
      have j2: "bins_inv (set (dl t)) WF (or_empty bref2)"
        using 2(6) by (simp add: bref2_def or_empty_def)
      have rs: "set rest \<subseteq> set (dl t)" using Cons.prems(2) by simp
      from outer[OF m2 2(1) rs j2, of html2] obtain html3 bref3 C3 batches3 where
        run3: "render_rec en C2 rest bref2 html2 = Some (Inr (html3, bref3), C3)"
        and runb3: "\<forall>tr. render_bins C2 rest bref2 tr = Some (Inr (tr @ batches3, bref3), C3)"
        and post3: "render_post T (set (dl t)) WF INJ en C2 rest bref2 html2 html3 bref3 C3 batches3"
        by blast
      from post3 have 3:
           "c_tree C3 = Some T" "c_options C3 = c_options C2" "c_events C3 = c_events C2"
           "\<forall>i. c_renderedEvents C2 i = Some True \<longrightarrow> c_renderedEvents C3 i = Some True"
           "bref2 = None \<longleftrightarrow> bref3 = None" "bins_inv (set (dl t)) WF (or_empty bref3)"
           "\<forall>x. placed (or_empty bref2) x \<longrightarrow> placed (or_empty bref3) x"
           "\<forall>x \<in> set rest. isRendered C3 x"
           "html3 = html2 @ concat (map (batch_html en (o_width (c_options C2))) batches3)"
           "\<forall>b \<in> set batches3. bins_inv (set (dl t)) WF b"
           "INJ \<longrightarrow> (\<forall>x \<in> set (dl t). isRendered C3 x \<and> \<not> isRendered C2 x \<longrightarrow>
               placed (or_empty bref3) x \<or> (\<exists>b \<in> set batches3. placed b x))"
        unfolding render_post_def by simp_all
      define batches where "batches = batches1 @ [or_empty bref1] @ batches3"
      have run: "render_rec en C (e # rest) bref html = Some (Inr (html3, bref3), C3)"
        using False coll(1) run1 run3
        by (subst render_rec.simps)
           (simp add: C1_def[symmetric] bins1_def[symmetric] Let_def bref2_def html2_def)
      have runb: "\<forall>tr. render_bins C (e # rest) bref tr = Some (Inr (tr @ batches, bref3), C3)"
        using False coll(1) runb1 runb3
        by (subst render_bins.simps)
           (simp add: C1_def[symmetric] bins1_def[symmetric] Let_def bref2_def batches_def)
      have a: "c_tree C3 = Some T" "c_options C3 = c_options C" "c_events C3 = c_events C"
        using 3(1,2,3) 2(2,3) c1 by simp_all
      have b: "\<forall>i. c_renderedEvents C i = Some True \<longrightarrow> c_renderedEvents C3 i = Some True"
        using 3(4) 2(4) r1 by blast
      have c: "bref = None \<longleftrightarrow> bref3 = None" using 3(5) 2(5) by (cases bref) (auto simp: bref2_def)
      have d: "\<forall>x. placed (or_empty bref) x \<longrightarrow> placed (or_empty bref3) x"
      proof (cases bref)
        case None
        then show ?thesis by (simp add: or_empty_def)
      next
        case (Some bs)
        then have "bref2 = bref1" by (simp add: bref2_def)
        then show ?thesis using 3(7) 2(7) p1 by blast
      qed
      have er: "isRendered C3 e" using r1[of "ev_id e"] 2(4) 3(4) by (simp add: isRendered_def)
      have f: "\<forall>x \<in> set (e # rest). isRendered C3 x" using er 3(8) by simp
      have g: "html3 = html @ concat (map (batch_html en (o_width (c_options C))) batches)"
        using 3(9) 2(8) c1(2) 2(2) by (simp add: html2_def renderEvents_batch batches_def)
      have h: "\<forall>b \<in> set batches. bins_inv (set (dl t)) WF b"
        using 2(9) 3(10) 2(6) by (auto simp: batches_def)
      have i: "INJ \<longrightarrow> (\<forall>x \<in> set (dl t). isRendered C3 x \<and> \<not> isRendered C x \<longrightarrow>
         placed (or_empty bref3) x \<or> (\<exists>b \<in> set batches. placed b x))"
      proof (intro impI ballI)
        fix x assume INJ and x: "x \<in> set (dl t)" and xr: "isRendered C3 x \<and> \<not> isRendered C x"
        show "placed (or_empty bref3) x \<or> (\<exists>b \<in> set batches. placed b x)"
        proof (cases "isRendered C2 x")
          case False
          with 3(11) \<open>INJ\<close> x xr have "placed (or_empty bref3) x \<or> (\<exists>b \<in> set batches3. placed b x)"
            by blast
          then show ?thesis by (auto simp: batches_def)
        next
          case True
          have "placed (or_empty bref1) x \<or> (\<exists>b \<in> set batches1. placed b x)"
          proof (cases "isRendered C1 x")
            case False
            with 2(10) \<open>INJ\<close> x True show ?thesis by blast
          next
            case True
            with xr r1[of "ev_id x"] have "ev_id x = ev_id e" by (simp add: isRendered_def)
            with inja \<open>INJ\<close> x e have "x = e" by (auto dest: inj_onD)
            then show ?thesis using 2(7) p1 by blast
          qed
          then show ?thesis by (auto simp: batches_def)
        qed
      qed
      have "render_post T (set (dl t)) WF INJ en C (e # rest) bref html html3 bref3 C3 batches"
        unfolding render_post_def using a b c 3(6) d f g h i by blast
      with run runb show ?thesis by blast
    qed
  qed
qed

lemma new_Event_id [simp]: "new_Event e = e"
  by (simp add: new_Event_def)

lemma layOutDay_batches:
  assumes "es \<noteq> []"
  shows "\<exists>C' batches. layOutDay en C es = Some (Inr (fold ins_after es []), C') \<and>
     layout_bins C es = Some batches \<and>
     c_eventsHtml C' = concat (map (batch_html en (o_width (c_options C))) batches) \<and>
     (\<forall>b \<in> set batches. \<forall>e. placed b e \<longrightarrow> e \<in> set es) \<and>
     ((\<forall>e \<in> set es. ev_start e \<le> ev_end e) \<longrightarrow> (\<forall>b \<in> set batches. bins_ok b)) \<and>
     (inj_on ev_id (set es) \<longrightarrow> (\<forall>e \<in> set es. \<exists>b \<in> set batches. placed b e))"
proof -
  let ?t = "ins_seq Event_comparator 0 es Leaf"
  let ?WF = "\<forall>e \<in> set es. ev_start e \<le> ev_end e"
  let ?INJ = "inj_on ev_id (set es)"
  from insert_all_new[of Event_comparator es] obtain T where T:
    "insert_all (new_Tree Event_comparator) es = Some (Inr T)" "rbt_repr T ?t" by blast
  from T(2) have r: "repr (t_nodes T) None ?t" "t_root T = rootptr ?t" "distinct (addrs ?t)"
    by (simp_all add: rbt_repr_def)
  have ne: "?t \<noteq> Leaf" using assms by (simp add: ins_seq_Leaf_iff)
  have d: "dl ?t = fold ins_after es []" by (simp add: dl_ins_seq)
  have sd: "set (dl ?t) = set es" using set_fold_ins_after[of es "[]"] d by simp
  have g: "getOrderedData T None = Some (Inr (dl ?t))" using getOrderedData_sim[OF r ne, of None] .
  define C1 where "C1 = C\<lparr>c_tree := Some T, c_events := Some (dl ?t)\<rparr>"
  have se: "setEvents C es = Some (Inr (dl ?t), C1)"
    using T(1) g by (simp add: setEvents_def C1_def map_idI)
  have ct: "c_tree (clear C1) = Some T" "c_options (clear C1) = c_options C"
    "c_renderedEvents (clear C1) = Map.empty" "c_events C1 = Some (dl ?t)"
    by (simp_all add: clear_def C1_def)
  from render_rec_total[OF r(1,2), of ?WF ?INJ "clear C1" "dl ?t" None en "[]"] ct(1) sd
  obtain html' bref' C' batches where
    run: "render_rec en (clear C1) (dl ?t) None [] = Some (Inr (html', bref'), C')"
    and runb: "\<forall>tr. render_bins (clear C1) (dl ?t) None tr = Some (Inr (tr @ batches, bref'), C')"
    and post: "render_post T (set (dl ?t)) ?WF ?INJ en (clear C1) (dl ?t) None [] html' bref' C' batches"
    by (auto simp: or_empty_def)
  from post have p:
    "bref' = None"
    "\<forall>e \<in> set (dl ?t). isRendered C' e"
    "html' = concat (map (batch_html en (o_width (c_options C))) batches)"
    "\<forall>b \<in> set batches. bins_inv (set es) ?WF b"
    "?INJ \<longrightarrow> (\<forall>e \<in> set es. isRendered C' e \<and> \<not> isRendered (clear C1) e \<longrightarrow>
         placed (or_empty bref') e \<or> (\<exists>b \<in> set batches. placed b e))"
    unfolding render_post_def ct(2) sd by blast+
  have nr: "\<And>e. \<not> isRendered (clear C1) e" by (simp add: isRendered_def ct(3))
  have lay: "layOutDay en C es = Some (Inr (dl ?t), C'\<lparr>c_eventsHtml := html'\<rparr>)"
    using se run ct(4) by (simp add: layOutDay_def render_def)
  have lb: "layout_bins C es = Some batches"
    using se runb by (simp add: layout_bins_def)
  have 1: "c_eventsHtml (C'\<lparr>c_eventsHtml := html'\<rparr>) =
      concat (map (batch_html en (o_width (c_options C))) batches)" using p(3) by simp
  have 2: "\<forall>b \<in> set batches. \<forall>e. placed b e \<longrightarrow> e \<in> set es"
    using p(4) by (auto simp: bins_inv_def)
  have 3: "?WF \<longrightarrow> (\<forall>b \<in> set batches. bins_ok b)" using p(4) by (auto simp: bins_inv_def)
  have 4: "?INJ \<longrightarrow> (\<forall>e \<in> set es. \<exists>b \<in> set batches. placed b e)"
    using p(1,2,5) nr sd by (auto simp: or_empty_def)
  show ?thesis using lay lb 1 2 3 4 unfolding d by blast
qed

lemma layOutDay_single:
  assumes "ev_start e \<le> ev_end e"
  shows "\<exists>C'. layOutDay en C [e] = Some (Inr [e], C') \<and>
           layout_bins C [e] = Some [[\<lparr>b_max = ev_end e, b_events = [e]\<rparr>]] \<and>
           c_eventsHtml C' = [positioned en (o_width (c_options C)) 1 0 e]"
proof -
  let ?t = "Node Leaf (0, BLACK, e) Leaf"
  have t: "ins_seq Event_comparator 0 [e] Leaf = ?t" by (simp add: ins_def)
  from insert_all_new[of Event_comparator "[e]"] obtain T where T:
    "insert_all (new_Tree Event_comparator) [e] = Some (Inr T)" "rbt_repr T ?t"
    unfolding t by blast
  from T(2) have r: "repr (t_nodes T) None ?t" "t_root T = rootptr ?t" "distinct (addrs ?t)"
    by (simp_all add: rbt_repr_def)
  have g: "getOrderedData T None = Some (Inr [e])"
    using getOrderedData_sim[OF r, of None] by simp
  have s: "searchInterval T e None = Some (Inr [e])"
    using r(1,2) assms
    by (subst searchInterval.simps)
       (simp add: getChild_def deref_def search_left_def isColliding_def bindE_def)
  define C1 where "C1 = C\<lparr>c_tree := Some T, c_events := Some [e]\<rparr>"
  define C2 where "C2 = setIsRendered (clear C1) e"
  have se: "setEvents C [e] = Some (Inr [e], C1)"
    using T(1) g by (simp add: setEvents_def C1_def)
  have c2: "isRendered C2 e" "getCollisions C2 e = Some (Inr [e])"
    "o_width (c_options C2) = o_width (c_options C)"
    using s by (simp_all add: C2_def C1_def setIsRendered_def clear_def isRendered_def
        getCollisions_def)
  have inner: "render_rec en C2 [e] (Some [\<lparr>b_max = ev_end e, b_events = [e]\<rparr>]) []
      = Some (Inr ([], Some [\<lparr>b_max = ev_end e, b_events = [e]\<rparr>]), C2)"
    using c2(1) by (subst render_rec.simps, simp) (subst render_rec.simps, simp)
  have innerb: "render_bins C2 [e] (Some [\<lparr>b_max = ev_end e, b_events = [e]\<rparr>]) []
      = Some (Inr ([], Some [\<lparr>b_max = ev_end e, b_events = [e]\<rparr>]), C2)"
    using c2(1) by (subst render_bins.simps, simp) (subst render_bins.simps, simp)
  have nr: "\<not> isRendered (clear C1) e" by (simp add: isRendered_def clear_def)
  have runb: "render_bins (clear C1) [e] None [] =
      Some (Inr ([[\<lparr>b_max = ev_end e, b_events = [e]\<rparr>]], None), C2)"
    using nr c2(2) innerb
    by (subst render_bins.simps)
       (simp add: C2_def[symmetric] or_empty_def render_bins.simps[of _ "[]"])
  have lb: "layout_bins C [e] = Some [[\<lparr>b_max = ev_end e, b_events = [e]\<rparr>]]"
    using se runb by (simp add: layout_bins_def)
  have run: "render_rec en (clear C1) [e] None [] =
      Some (Inr ([positioned en (o_width (c_options C)) 1 0 e], None), C2)"
    using nr c2(2,3) inner
    by (subst render_rec.simps)
       (simp add: C2_def[symmetric] or_empty_def render_rec.simps[of _ _ "[]"]
          renderEvents_batch batch_html_def)
  have "layOutDay en C [e] = Some (Inr [e],
       C2\<lparr>c_eventsHtml := [positioned en (o_width (c_options C)) 1 0 e]\<rparr>)"
    using se run by (simp add: layOutDay_def render_def C1_def)
  then show ?thesis using lb by simp
qed

lemma stale_max_splits_overlapping_events:
  "isColliding \<lparr>ev_id = 6, ev_start = 4, ev_end = 6\<rparr> \<lparr>ev_id = 5, ev_start = 5, ev_end = 100\<rparr> \<and>
   layout_bins (new_Calendar getDefaultOptions)
     [\<lparr>ev_id = 1, ev_start = 200, ev_end = 300\<rparr>, \<lparr>ev_id = 2, ev_start = 2, ev_end = 3\<rparr>,
      \<lparr>ev_id = 3, ev_start = 400, ev_end = 500\<rparr>, \<lparr>ev_id = 4, ev_start = 0, ev_end = 1\<rparr>,
      \<lparr>ev_id = 5, ev_start = 5, ev_end = 100\<rparr>, \<lparr>ev_id = 6, ev_start = 4, ev_end = 6\<rparr>]
   = Some [[\<lparr>b_max = 1, b_events = [\<lparr>ev_id = 4, ev_start = 0, ev_end = 1\<rparr>]\<rparr>],
           [\<lparr>b_max = 3, b_events = [\<lparr>ev_id = 2, ev_start = 2, ev_end = 3\<rparr>]\<rparr>],
           [\<lparr>b_max = 6, b_events = [\<lparr>ev_id = 6, ev_start = 4, ev_end = 6\<rparr>]\<rparr>],
           [\<lparr>b_max = 100, b_events = [\<lparr>ev_id = 5, ev_start = 5, ev_end = 100\<rparr>]\<rparr>],
           [\<lparr>b_max = 300, b_events = [\<lparr>ev_id = 1, ev_start = 200, ev_end = 300\<rparr>]\<rparr>],
           [\<lparr>b_max = 500, b_events = [\<lparr>ev_id = 3, ev_start = 400, ev_end = 500\<rparr>]\<rparr>]]"
  by code_simp

lemma double_examples:
  "double 600 = 600"
  "double (600 / 2) = 300"
  "double (1 / 10) = 3602879701896397 / 36028797018963968"
  "double (100 / 3) = 4691249611844267 / 140737488355328"
  "double 9007199254740993 = 9007199254740992"
  "double (- (5 / 2)) = - (5 / 2)"
  by code_simp+

lemma bins_ok_no_overlap: "bins_ok bins \<Longrightarrow> no_overlap_in_columns bins"
  by (simp add: bins_ok_def no_overlap_in_columns_def)

lemma climbR_None: "climbR c s = None \<Longrightarrow> before c = []"
  by (induction c s rule: climbR.induct) auto

lemma climbR_Some:
  "climbR c s = Some (c', s') \<Longrightarrow> zip_ok T c s \<Longrightarrow>
     zip_ok T c' s' \<and> (\<exists>l x r. s' = Node l x r \<and> before c = before c' @ keys l @ [kl x])"
proof (induction c s rule: climbR.induct)
  case (2 l x cs s)
  obtain a cl d where x: "x = (a, cl, d)" by (cases x) auto
  from 2 show ?case unfolding x by (auto simp: zip_ok_def)
next
  case (3 x r cs s)
  obtain a cl d where x: "x = (a, cl, d)" by (cases x) auto
  have "zip_ok T cs (Node s x r)" using 3(3) unfolding x by (auto simp: zip_ok_def)
  from 3(1)[OF 3(2)[simplified] this] show ?case by simp
qed simp

lemma predecessor_loop_sim:
  "zip_ok T c s \<Longrightarrow> s \<noteq> Leaf \<Longrightarrow>
     predecessor_loop T (rootptr s) (hole_parent c) =
       Some (Inr (case climbR c s of None \<Rightarrow> None | Some (c', s') \<Rightarrow> rootptr s'))"
proof (induction c s rule: climbR.induct)
  case (1 s)
  then show ?case by (subst predecessor_loop.simps) simp
next
  case (2 l x cs s)
  obtain a cl d where x: "x = (a, cl, d)" by (cases x) auto
  obtain sl z zc zd sr where s: "s = Node sl (z, zc, zd) sr" using 2(2) by (cases s) auto
  from 2 show ?case unfolding x s
    by (subst predecessor_loop.simps) (auto simp: zip_ok_def getChild_def rootptr_notin')
next
  case (3 x r cs s)
  obtain a cl d where x: "x = (a, cl, d)" by (cases x) auto
  obtain sl z zc zd sr where s: "s = Node sl (z, zc, zd) sr" using 3(3) by (cases s) auto
  have "zip_ok T cs (Node s x r)" using 3(2) unfolding x by (auto simp: zip_ok_def)
  from 3(1)[OF this] have "predecessor_loop T (Some a) (hole_parent cs) =
      Some (Inr (case climbR cs (Node s x r) of None \<Rightarrow> None | Some (c', s') \<Rightarrow> rootptr s'))"
    unfolding x by simp
  then show ?case using 3(2) unfolding x s
    by (subst predecessor_loop.simps) (auto simp: zip_ok_def getChild_def getParent_def)
qed

lemma rmost_props:
  "rmost c t = (c', s') \<Longrightarrow> zip_ok T c t \<Longrightarrow> t \<noteq> Leaf \<Longrightarrow>
     zip_ok T c' s' \<and> (\<exists>l x. s' = Node l x Leaf \<and> before c @ keys t = before c' @ keys l @ [kl x])"
proof (induction c t rule: rmost.induct)
  case (2 c l x r)
  obtain a cl d where x: "x = (a, cl, d)" by (cases x) auto
  show ?case
  proof (cases "r = Leaf")
    case True
    then show ?thesis using 2(2,3) by (auto simp: x)
  next
    case False
    have "zip_ok T (FR l x # c) r" using 2(3) unfolding x by (auto simp: zip_ok_def)
    moreover have "rmost (FR l x # c) r = (c', s')" using 2(2) False by simp
    ultimately show ?thesis using 2(1)[OF False _ _ False] by auto
  qed
qed simp

lemma maximum_loop_sim:
  "zip_ok T c t \<Longrightarrow> t \<noteq> Leaf \<Longrightarrow>
     maximum_loop T (rootptr t) = Some (Inr (rootptr (snd (rmost c t))))"
proof (induction c t rule: rmost.induct)
  case (2 c l x r)
  obtain a cl d where x: "x = (a, cl, d)" by (cases x) auto
  show ?case
  proof (cases "r = Leaf")
    case True
    then show ?thesis using 2(2) unfolding x
      by (subst maximum_loop.simps) (auto simp: zip_ok_def getChild_def)
  next
    case False
    have "zip_ok T (FR l x # c) r" using 2(2) unfolding x by (auto simp: zip_ok_def)
    from 2(1)[OF False this False] have "maximum_loop T (rootptr r) =
       Some (Inr (rootptr (snd (rmost (FR l x # c) r))))" .
    moreover obtain b where "rootptr r = Some b" using False by (cases r) auto
    ultimately show ?thesis using 2(2) False unfolding x
      by (subst maximum_loop.simps) (auto simp: zip_ok_def getChild_def)
  qed
qed simp

lemma maximum_Some: "maximum T (Some a) = maximum_loop T (Some a)"
  by (simp add: maximum_def)

lemma predecessor_sim:
  assumes "zip_ok T c (Node l x r)"
  shows "predecessor T (Some (fst x)) =
           Some (Inr (case prv c (Node l x r) of None \<Rightarrow> None | Some (c', s') \<Rightarrow> rootptr s'))"
    and "case prv c (Node l x r) of None \<Rightarrow> before c @ keys l = []
         | Some (c', s') \<Rightarrow> zip_ok T c' s' \<and>
             (\<exists>l' x' r'. s' = Node l' x' r' \<and> before c @ keys l = before c' @ keys l' @ [kl x'])"
proof -
  obtain a cl d where x: "x = (a, cl, d)" by (cases x) auto
  show "predecessor T (Some (fst x)) =
           Some (Inr (case prv c (Node l x r) of None \<Rightarrow> None | Some (c', s') \<Rightarrow> rootptr s'))"
  proof (cases "l = Leaf")
    case True
    from predecessor_loop_sim[OF assms] show ?thesis using assms True unfolding x
      by (simp add: predecessor_def prv_def zip_ok_def getChild_def getParent_def)
  next
    case False
    then obtain b where b: "rootptr l = Some b" by (cases l) auto
    have z: "zip_ok T (FL x r # c) l" using assms unfolding x by (auto simp: zip_ok_def)
    from maximum_loop_sim[OF z False] show ?thesis using assms False b unfolding x
      by (simp add: predecessor_def prv_def zip_ok_def getChild_def maximum_Some split: prod.splits)
  qed
  show "case prv c (Node l x r) of None \<Rightarrow> before c @ keys l = []
         | Some (c', s') \<Rightarrow> zip_ok T c' s' \<and>
             (\<exists>l' x' r'. s' = Node l' x' r' \<and> before c @ keys l = before c' @ keys l' @ [kl x'])"
  proof (cases "l = Leaf")
    case True
    then show ?thesis using climbR_None[of c "Node l x r"] climbR_Some[of c "Node l x r" _ _ T] assms
      by (auto simp: prv_def split: option.splits)
  next
    case False
    have z: "zip_ok T (FL x r # c) l" using assms unfolding x by (auto simp: zip_ok_def)
    obtain c' s' where m: "rmost (FL x r # c) l = (c', s')" by (cases "rmost (FL x r # c) l") auto
    from rmost_props[OF m z False] show ?thesis using False m by (auto simp: prv_def)
  qed
qed

lemma getReverseOrderedData_loop_sim:
  "zip_ok T c (Node l x r) \<Longrightarrow>
     getReverseOrderedData_loop T (Some (fst x)) acc =
       Some (Inr (acc @ ldata x # rev (map snd (before c @ keys l))))"
proof (induction "length (before c @ keys l)" arbitrary: c l x r acc)
  case 0
  obtain a cl d where x: "x = (a, cl, d)" by (cases x) auto
  from 0(1) have e: "before c @ keys l = []" by simp
  from predecessor_sim[OF 0(2)] e have "predecessor T (Some (fst x)) = Some (Inr None)"
    by (auto split: option.splits)
  then show ?case using 0(2) e unfolding x
    by (subst getReverseOrderedData_loop.simps, simp add: zip_ok_def)
       (subst getReverseOrderedData_loop.simps, simp)
next
  case (Suc n)
  obtain a cl d where x: "x = (a, cl, d)" by (cases x) auto
  show ?case
  proof (cases "prv c (Node l x r)")
    case None
    with predecessor_sim(2)[OF Suc(3)] Suc(2) show ?thesis by simp
  next
    case (Some p)
    obtain c' s' where p: "p = (c', s')" by (cases p) auto
    from predecessor_sim(2)[OF Suc(3)] Some p obtain l' x' r' where
      z: "zip_ok T c' (Node l' x' r')" and s': "s' = Node l' x' r'"
      and k: "before c @ keys l = before c' @ keys l' @ [kl x']" by auto
    obtain a' cl' d' where x': "x' = (a', cl', d')" by (cases x') auto
    have s: "predecessor T (Some a) = Some (Inr (Some a'))"
      using predecessor_sim(1)[OF Suc(3)] Some p s' x' x by simp
    have "n = length (before c' @ keys l')" using Suc(2) k by simp
    from Suc(1)[OF this z, of "acc @ [ldata x]"] show ?thesis using s Suc(3) k unfolding x x'
      by (subst getReverseOrderedData_loop.simps) (simp add: zip_ok_def)
  qed
qed

lemma getReverseOrderedData_sim:
  assumes "repr (t_nodes T) None t" "t_root T = rootptr t" "distinct (addrs t)" "t \<noteq> Leaf"
  shows "getReverseOrderedData T arg = Some (Inr (rev (dl t)))"
    and "\<exists>a. maximum T None = Some (Inr (Some a)) \<and> a = last (addrs t)"
proof -
  have z: "zip_ok T [] t" using assms by (simp add: zip_ok_def)
  obtain c' s' where m: "rmost [] t = (c', s')" by (cases "rmost [] t") auto
  from rmost_props[OF m z assms(4)] obtain l x where
    z': "zip_ok T c' (Node l x Leaf)" and s': "s' = Node l x Leaf"
    and k: "keys t = before c' @ keys l @ [kl x]" by auto
  have mx: "maximum T None = Some (Inr (Some (fst x)))"
    using maximum_loop_sim[OF z assms(4)] m s' assms(2) assms(4)
    by (cases x) (auto simp: maximum_def)
  show "getReverseOrderedData T arg = Some (Inr (rev (dl t)))"
    using getReverseOrderedData_loop_sim[OF z', of "[]"] mx k
    by (simp add: getReverseOrderedData_def dl_def kl_def)
  show "\<exists>a. maximum T None = Some (Inr (Some a)) \<and> a = last (addrs t)"
    using mx k by (simp add: addrs_keys kl_def)
qed

lemma getOrdered_loop_sim:
  "zip_ok T c (Node l x r) \<Longrightarrow>
     getOrdered_loop T (Some (fst x)) acc =
       Some (Inr (acc @ Some (fst x) # map (Some \<circ> fst) (keys r @ after c)))"
proof (induction "length (keys r @ after c)" arbitrary: c l x r acc)
  case 0
  obtain a cl d where x: "x = (a, cl, d)" by (cases x) auto
  from 0(1) have e: "keys r @ after c = []" by simp
  from successor_sim[OF 0(2)] e have "successor T (Some (fst x)) = Some (Inr None)"
    by (auto split: option.splits)
  then show ?case using 0(2) e unfolding x
    by (subst getOrdered_loop.simps, simp add: zip_ok_def)
       (subst getOrdered_loop.simps, simp)
next
  case (Suc n)
  obtain a cl d where x: "x = (a, cl, d)" by (cases x) auto
  show ?case
  proof (cases "nxt c (Node l x r)")
    case None
    with successor_sim(2)[OF Suc(3)] Suc(2) show ?thesis by simp
  next
    case (Some p)
    obtain c' s' where p: "p = (c', s')" by (cases p) auto
    from successor_sim(2)[OF Suc(3)] Some p obtain l' x' r' where
      z: "zip_ok T c' (Node l' x' r')" and s': "s' = Node l' x' r'"
      and k: "keys r @ after c = kl x' # keys r' @ after c'" by auto
    obtain a' cl' d' where x': "x' = (a', cl', d')" by (cases x') auto
    have s: "successor T (Some a) = Some (Inr (Some a'))"
      using successor_sim(1)[OF Suc(3)] Some p s' x' x by simp
    have "n = length (keys r' @ after c')" using Suc(2) k by simp
    from Suc(1)[OF this z, of "acc @ [Some (fst x)]"] show ?thesis using s Suc(3) k unfolding x x'
      by (subst getOrdered_loop.simps) (simp add: zip_ok_def)
  qed
qed

lemma getOrdered_sim:
  assumes "repr (t_nodes T) None t" "t_root T = rootptr t" "distinct (addrs t)" "t \<noteq> Leaf"
  shows "getOrdered T arg = Some (Inr (map Some (addrs t)))"
    and "\<exists>a. minimum T None = Some (Inr (Some a)) \<and> a = hd (addrs t)"
proof -
  have z: "zip_ok T [] t" using assms by (simp add: zip_ok_def)
  obtain c' s' where l: "lmost [] t = (c', s')" by (cases "lmost [] t") auto
  from lmost_props[OF l z assms(4)] obtain x r where
    z': "zip_ok T c' (Node Leaf x r)" and s': "s' = Node Leaf x r"
    and k: "keys t = kl x # keys r @ after c'" by auto
  have m: "minimum T None = Some (Inr (Some (fst x)))"
    using minimum_loop_sim[OF z assms(4)] l s' assms(2) assms(4)
    by (cases x) (auto simp: minimum_def)
  show "getOrdered T arg = Some (Inr (map Some (addrs t)))"
    using getOrdered_loop_sim[OF z', of "[]"] m k
    by (simp add: getOrdered_def addrs_keys kl_def)
  show "\<exists>a. minimum T None = Some (Inr (Some a)) \<and> a = hd (addrs t)"
    using m k by (simp add: addrs_keys kl_def)
qed

lemma inorder_erase:
  "repr h par t \<Longrightarrow> map n_data (inorder (erase h t)) = dl t \<and>
     map (\<lambda>a. h ! a) (addrs t) = inorder (erase h t) \<and> (\<forall>a \<in> set (addrs t). a < length h)"
proof (induction t arbitrary: par)
  case (Node l x r)
  obtain a cl d where x: "x = (a, cl, d)" by (cases x) auto
  from Node.prems have "repr h (Some a) l" "repr h (Some a) r" "a < length h" "n_data (h ! a) = d"
    unfolding x by auto
  with Node.IH[of "Some a"] show ?case unfolding x by (auto simp: addrs_keys)
qed (simp add: addrs_keys)

lemma length_keys_ins: "length (keys (ins cmp z d t)) = Suc (length (keys t))"
proof -
  have "keys t = before (path cmp d t) @ after (path cmp d t)"
    using keys_plug[of "path cmp d t" Leaf] by (simp add: plug_path)
  then show ?thesis by (simp add: keys_ins)
qed

lemma length_keys_ins_seq: "length (keys (ins_seq cmp z es t)) = length (keys t) + length es"
  by (induction es arbitrary: z t) (auto simp: length_keys_ins)

lemma deref_addrs:
  "\<forall>a \<in> set as. a < length (t_nodes T) \<Longrightarrow>
     map (deref T) (map Some as) = map Inr (map (\<lambda>a. t_nodes T ! a) as)"
  by (induction as) (auto simp: deref_def)


section \<open>The claims\<close>

text \<open>
  Claim C1.  Whatever the comparator and whatever intervals are inserted one after the
  other into an empty tree, every call of \<^verbatim>\<open>insert\<close> returns normally, and the tree
  that the store then holds has a BLACK root, no RED node with a RED child, and the
  same number of BLACK nodes on every path from the root to an absent child.  (Every
  prefix of a sequence is a sequence, so this covers the tree after each insertion.)
\<close>

theorem C1_red_black_invariants:
  "\<exists>T t. insert_all (new_Tree cmp) es = Some (Inr T) \<and> the_tree T = Some t \<and>
          root_black t \<and> no_red_red t \<and> black_balanced t"
proof -
  from rb_after_inserts_aux[of cmp es] obtain T t where
    "insert_all (new_Tree cmp) es = Some (Inr T)" "the_tree T = Some t"
    "\<not> red_root t" "no_red_red t" "black_balanced t" by blast
  moreover from this(3) have "root_black t"
    by (cases t) (auto simp: root_black_def intro: color.exhaust)
  ultimately show ?thesis by blast
qed

theorem C1_red_black_invariants_witness:
  "\<exists>T t. insert_all (new_Tree Event_comparator)
            [\<lparr>ev_id = 1, ev_start = 20, ev_end = 100\<rparr>, \<lparr>ev_id = 2, ev_start = 40, ev_end = 150\<rparr>,
             \<lparr>ev_id = 3, ev_start = 10, ev_end = 30\<rparr>] = Some (Inr T) \<and>
          the_tree T = Some t \<and> root_black t \<and> no_red_red t \<and> black_balanced t"
  by (rule C1_red_black_invariants)

text \<open>
  Claim C2 fails on the code.  \<^verbatim>\<open>insert\<close> sets the maximum of the new node only, and
  \<^verbatim>\<open>_rotate\<close> that of the two rotated nodes; the nodes above are not updated.  After
  inserting [0,10] and then [5,100], the root still has \<^verbatim>\<open>_max\<close> 10 although its
  subtree holds an interval that ends at 100.
\<close>

theorem C2_max_not_maintained:
  "case insert_all (new_Tree Event_comparator)
          [\<lparr>ev_id = 1, ev_start = 0, ev_end = 10\<rparr>, \<lparr>ev_id = 2, ev_start = 5, ev_end = 100\<rparr>] of
     Some (Inr T) \<Rightarrow>
       (case the_tree T of
          Some t \<Rightarrow> \<not> max_ok t \<and> n_max (value t) = Some 10 \<and> max_end t = Some 100
        | None \<Rightarrow> False)
   | _ \<Rightarrow> False"
  by code_simp

text \<open>
  Claim C3 fails on the code, through the stale maxima of claim C2.  After inserting
  [10,20], [5,8], [30,40] and [1,100], the search for [50,60] skips the left subtree of
  the root, whose \<^verbatim>\<open>_max\<close> is still 8, and returns nothing; scanning the stored
  intervals finds [1,100].
\<close>

theorem C3_search_misses_overlap:
  "case insert_all (new_Tree Event_comparator)
          [\<lparr>ev_id = 1, ev_start = 10, ev_end = 20\<rparr>, \<lparr>ev_id = 2, ev_start = 5, ev_end = 8\<rparr>,
           \<lparr>ev_id = 3, ev_start = 30, ev_end = 40\<rparr>, \<lparr>ev_id = 4, ev_start = 1, ev_end = 100\<rparr>] of
     Some (Inr T) \<Rightarrow>
       searchInterval T \<lparr>ev_id = 0, ev_start = 50, ev_end = 60\<rparr> None = Some (Inr []) \<and>
       brute_force
         [\<lparr>ev_id = 1, ev_start = 10, ev_end = 20\<rparr>, \<lparr>ev_id = 2, ev_start = 5, ev_end = 8\<rparr>,
          \<lparr>ev_id = 3, ev_start = 30, ev_end = 40\<rparr>, \<lparr>ev_id = 4, ev_start = 1, ev_end = 100\<rparr>]
         \<lparr>ev_id = 0, ev_start = 50, ev_end = 60\<rparr> = [\<lparr>ev_id = 4, ev_start = 1, ev_end = 100\<rparr>]
   | _ \<Rightarrow> False"
  by code_simp

text \<open>
  Claim C4 as stated fails.  \<^verbatim>\<open>_addToBin\<close> puts an event into the first bin with
  \<^verbatim>\<open>event.start >= bin.max\<close>, so an event that starts where another one ends joins
  its bin, while \<^verbatim>\<open>Event.isColliding\<close> counts the two as overlapping.  The events
  [0,100] and [100,200] are well-formed and collide, and the layout gives both of them
  the left edge 10 and the whole width 600: they are in the same column.
\<close>

theorem C4_touching_events_share_column:
  "well_formed \<lparr>ev_id = 1, ev_start = 0, ev_end = 100\<rparr> \<and>
   well_formed \<lparr>ev_id = 2, ev_start = 100, ev_end = 200\<rparr> \<and>
   isColliding \<lparr>ev_id = 1, ev_start = 0, ev_end = 100\<rparr> \<lparr>ev_id = 2, ev_start = 100, ev_end = 200\<rparr> \<and>
   addToBin \<lparr>ev_id = 2, ev_start = 100, ev_end = 200\<rparr>
     (addToBin \<lparr>ev_id = 1, ev_start = 0, ev_end = 100\<rparr> [])
     = [\<lparr>b_max = 200, b_events = [\<lparr>ev_id = 1, ev_start = 0, ev_end = 100\<rparr>,
                                   \<lparr>ev_id = 2, ev_start = 100, ev_end = 200\<rparr>]\<rparr>] \<and>
   layout_bins (new_Calendar getDefaultOptions)
     [\<lparr>ev_id = 1, ev_start = 0, ev_end = 100\<rparr>, \<lparr>ev_id = 2, ev_start = 100, ev_end = 200\<rparr>]
     = Some [[\<lparr>b_max = 200, b_events = [\<lparr>ev_id = 1, ev_start = 0, ev_end = 100\<rparr>,
                                         \<lparr>ev_id = 2, ev_start = 100, ev_end = 200\<rparr>]\<rparr>],
             [\<lparr>b_max = 200, b_events = [\<lparr>ev_id = 1, ev_start = 0, ev_end = 100\<rparr>,
                                         \<lparr>ev_id = 2, ev_start = 100, ev_end = 200\<rparr>]\<rparr>]] \<and>
   (case layOutDay
          \<lparr>BORDER_BOX = True, elementInset = \<lparr>borderLeft = 0, borderRight = 0, borderTop = 0,
             borderBottom = 0, paddingLeft = 0, paddingRight = 0, paddingTop = 0, paddingBottom = 0\<rparr>\<rparr>
          (new_Calendar getDefaultOptions)
          [\<lparr>ev_id = 1, ev_start = 0, ev_end = 100\<rparr>, \<lparr>ev_id = 2, ev_start = 100, ev_end = 200\<rparr>] of
     Some (Inr ordered, C') \<Rightarrow>
       c_eventsHtml C' =
         [\<lparr>h_id = 1, h_top = 0, h_left = 10, h_width = 600, h_height = 100\<rparr>,
          \<lparr>h_id = 2, h_top = 100, h_left = 10, h_width = 600, h_height = 100\<rparr>,
          \<lparr>h_id = 1, h_top = 0, h_left = 10, h_width = 600, h_height = 100\<rparr>,
          \<lparr>h_id = 2, h_top = 100, h_left = 10, h_width = 600, h_height = 100\<rparr>]
   | _ \<Rightarrow> False)"
  by code_simp

text \<open>
  Claim C4, amended.  For every non-empty list of well-formed events \<^verbatim>\<open>layOutDay\<close>
  returns normally, and what it writes to the events container is the rendering of its
  batches of columns, one after the other.  In every column of every batch each event
  ends no later than the events added to the column after it start, so that two events
  of one column share at most an end point.  When the ids of the events are distinct,
  every event is placed in a column of some batch.
\<close>

theorem C4_columns_are_chains:
  assumes "es \<noteq> []" "\<forall>e \<in> set es. well_formed e"
  shows "\<exists>ordered C' batches. layOutDay en C es = Some (Inr ordered, C') \<and>
     layout_bins C es = Some batches \<and>
     c_eventsHtml C' = concat (map (batch_html en (o_width (c_options C))) batches) \<and>
     (distinct (map ev_id es) \<longrightarrow> (\<forall>e \<in> set es. \<exists>bins \<in> set batches. placed bins e)) \<and>
     (\<forall>bins \<in> set batches. no_overlap_in_columns bins)"
proof -
  have wf: "\<forall>e \<in> set es. ev_start e \<le> ev_end e" using assms(2) by (auto simp: well_formed_def)
  from layOutDay_batches[OF assms(1), of en C] obtain C' batches where b:
    "layOutDay en C es = Some (Inr (fold ins_after es []), C')"
    "layout_bins C es = Some batches"
    "c_eventsHtml C' = concat (map (batch_html en (o_width (c_options C))) batches)"
    "(\<forall>e \<in> set es. ev_start e \<le> ev_end e) \<longrightarrow> (\<forall>b \<in> set batches. bins_ok b)"
    "inj_on ev_id (set es) \<longrightarrow> (\<forall>e \<in> set es. \<exists>b \<in> set batches. placed b e)"
    by blast
  have "distinct (map ev_id es) \<longrightarrow> (\<forall>e \<in> set es. \<exists>bins \<in> set batches. placed bins e)"
    using b(5) by (simp add: distinct_map)
  moreover have "\<forall>bins \<in> set batches. no_overlap_in_columns bins"
    using b(4) wf by (blast intro: bins_ok_no_overlap)
  ultimately show ?thesis using b(1,2,3) by blast
qed

theorem C4_columns_are_chains_witness:
  "[\<lparr>ev_id = 1, ev_start = 0, ev_end = 100\<rparr>, \<lparr>ev_id = 2, ev_start = 50, ev_end = 200\<rparr>,
         \<lparr>ev_id = 3, ev_start = 100, ev_end = 300\<rparr>] \<noteq> [] \<and>
   well_formed \<lparr>ev_id = 1, ev_start = 0, ev_end = 100\<rparr> \<and>
   well_formed \<lparr>ev_id = 2, ev_start = 50, ev_end = 200\<rparr> \<and>
   well_formed \<lparr>ev_id = 3, ev_start = 100, ev_end = 300\<rparr> \<and>
   (\<exists>ordered C' batches.
      layOutDay
        \<lparr>BORDER_BOX = True, elementInset = \<lparr>borderLeft = 0, borderRight = 0, borderTop = 0,
           borderBottom = 0, paddingLeft = 0, paddingRight = 0, paddingTop = 0, paddingBottom = 0\<rparr>\<rparr>
        (new_Calendar getDefaultOptions)
        [\<lparr>ev_id = 1, ev_start = 0, ev_end = 100\<rparr>, \<lparr>ev_id = 2, ev_start = 50, ev_end = 200\<rparr>,
         \<lparr>ev_id = 3, ev_start = 100, ev_end = 300\<rparr>] = Some (Inr ordered, C') \<and>
      layout_bins (new_Calendar getDefaultOptions)
        [\<lparr>ev_id = 1, ev_start = 0, ev_end = 100\<rparr>, \<lparr>ev_id = 2, ev_start = 50, ev_end = 200\<rparr>,
         \<lparr>ev_id = 3, ev_start = 100, ev_end = 300\<rparr>] = Some batches \<and>
      c_eventsHtml C' = concat (map (batch_html
        \<lparr>BORDER_BOX = True, elementInset = \<lparr>borderLeft = 0, borderRight = 0, borderTop = 0,
           borderBottom = 0, paddingLeft = 0, paddingRight = 0, paddingTop = 0, paddingBottom = 0\<rparr>\<rparr>
        600) batches) \<and>
      (\<forall>e \<in> set [\<lparr>ev_id = 1, ev_start = 0, ev_end = 100\<rparr>, \<lparr>ev_id = 2, ev_start = 50, ev_end = 200\<rparr>,
         \<lparr>ev_id = 3, ev_start = 100, ev_end = 300\<rparr>]. \<exists>bins \<in> set batches. placed bins e) \<and>
      (\<forall>bins \<in> set batches. no_overlap_in_columns bins))"
proof -
  have h: "[\<lparr>ev_id = 1, ev_start = 0, ev_end = 100\<rparr>, \<lparr>ev_id = 2, ev_start = 50, ev_end = 200\<rparr>,
         \<lparr>ev_id = 3, ev_start = 100, ev_end = (300::int)\<rparr>] \<noteq> []"
    "\<forall>e \<in> set [\<lparr>ev_id = 1, ev_start = 0, ev_end = 100\<rparr>, \<lparr>ev_id = 2, ev_start = 50, ev_end = 200\<rparr>,
         \<lparr>ev_id = 3, ev_start = 100, ev_end = 300\<rparr>]. well_formed e"
    by (simp_all add: well_formed_def)
  have d: "distinct (map ev_id [\<lparr>ev_id = 1, ev_start = 0, ev_end = 100\<rparr>, \<lparr>ev_id = 2, ev_start = 50, ev_end = 200\<rparr>,
         \<lparr>ev_id = 3, ev_start = 100, ev_end = 300\<rparr>])" by simp
  have w: "o_width (c_options (new_Calendar getDefaultOptions)) = 600"
    by (simp add: new_Calendar_def getDefaultOptions_def)
  have c: "\<exists>ordered C' batches.
      layOutDay
        \<lparr>BORDER_BOX = True, elementInset = \<lparr>borderLeft = 0, borderRight = 0, borderTop = 0,
           borderBottom = 0, paddingLeft = 0, paddingRight = 0, paddingTop = 0, paddingBottom = 0\<rparr>\<rparr>
        (new_Calendar getDefaultOptions)
        [\<lparr>ev_id = 1, ev_start = 0, ev_end = 100\<rparr>, \<lparr>ev_id = 2, ev_start = 50, ev_end = 200\<rparr>,
         \<lparr>ev_id = 3, ev_start = 100, ev_end = 300\<rparr>] = Some (Inr ordered, C') \<and>
      layout_bins (new_Calendar getDefaultOptions)
        [\<lparr>ev_id = 1, ev_start = 0, ev_end = 100\<rparr>, \<lparr>ev_id = 2, ev_start = 50, ev_end = 200\<rparr>,
         \<lparr>ev_id = 3, ev_start = 100, ev_end = 300\<rparr>] = Some batches \<and>
      c_eventsHtml C' = concat (map (batch_html
        \<lparr>BORDER_BOX = True, elementInset = \<lparr>borderLeft = 0, borderRight = 0, borderTop = 0,
           borderBottom = 0, paddingLeft = 0, paddingRight = 0, paddingTop = 0, paddingBottom = 0\<rparr>\<rparr>
        600) batches) \<and>
      (\<forall>e \<in> set [\<lparr>ev_id = 1, ev_start = 0, ev_end = 100\<rparr>, \<lparr>ev_id = 2, ev_start = 50, ev_end = 200\<rparr>,
         \<lparr>ev_id = 3, ev_start = 100, ev_end = 300\<rparr>]. \<exists>bins \<in> set batches. placed bins e) \<and>
      (\<forall>bins \<in> set batches. no_overlap_in_columns bins)"
    using C4_columns_are_chains[OF h, of
      "\<lparr>BORDER_BOX = True, elementInset = \<lparr>borderLeft = 0, borderRight = 0, borderTop = 0,
           borderBottom = 0, paddingLeft = 0, paddingRight = 0, paddingTop = 0, paddingBottom = 0\<rparr>\<rparr>"
      "new_Calendar getDefaultOptions"] d
    unfolding w by blast
  have wfs: "well_formed \<lparr>ev_id = 1, ev_start = 0, ev_end = 100\<rparr>"
    "well_formed \<lparr>ev_id = 2, ev_start = 50, ev_end = 200\<rparr>"
    "well_formed \<lparr>ev_id = 3, ev_start = 100, ev_end = 300\<rparr>"
    by (simp_all add: well_formed_def)
  show ?thesis by (intro conjI h(1) wfs c)
qed

text \<open>
  Claim C5 as stated fails for the empty sequence: on a tree without nodes
  \<^verbatim>\<open>getOrderedData\<close> calls \<^verbatim>\<open>this.minimum()\<close>, which dereferences the \<^verbatim>\<open>null\<close>
  root and throws a \<^verbatim>\<open>TypeError\<close>.  \<^verbatim>\<open>setEvents([])\<close> reaches that call.
\<close>

theorem C5_empty_sequence_throws:
  "insert_all (new_Tree Event_comparator) [] = Some (Inr (new_Tree Event_comparator)) \<and>
   getOrderedData (new_Tree Event_comparator) None = Some (Inl TypeError) \<and>
   map_option fst (setEvents (new_Calendar getDefaultOptions) []) = Some (Inl TypeError)"
  by (simp add: getOrderedData_def minimum_empty new_Tree_def setEvents_def)

text \<open>
  Claim C5, amended.  After inserting a non-empty sequence of events with
  \<^verbatim>\<open>Event.comparator\<close>, \<^verbatim>\<open>getOrderedData\<close> returns all of them, non-decreasing by
  start, and for every start value the events with that start appear in the order of
  their insertion.
\<close>

theorem C5_ordered_data_stable:
  assumes "es \<noteq> []"
  shows "\<exists>T ds. insert_all (new_Tree Event_comparator) es = Some (Inr T) \<and>
           getOrderedData T None = Some (Inr ds) \<and>
           sorted (map ev_start ds) \<and> length ds = length es \<and>
           (\<forall>k. filter (\<lambda>e. ev_start e = k) ds = filter (\<lambda>e. ev_start e = k) es)"
proof -
  let ?t = "ins_seq Event_comparator 0 es Leaf"
  from insert_all_new[of Event_comparator es] obtain T where T:
    "insert_all (new_Tree Event_comparator) es = Some (Inr T)" "rbt_repr T ?t" by blast
  from T(2) have r: "repr (t_nodes T) None ?t" "t_root T = rootptr ?t" "distinct (addrs ?t)"
    by (simp_all add: rbt_repr_def)
  have ne: "?t \<noteq> Leaf" using assms by (simp add: ins_seq_Leaf_iff)
  have d: "dl ?t = fold ins_after es []" by (simp add: dl_ins_seq)
  have g: "getOrderedData T None = Some (Inr (fold ins_after es []))"
    using getOrderedData_sim[OF r ne, of None] d by simp
  have f: "\<forall>k. filter (\<lambda>e. ev_start e = k) (fold ins_after es []) = filter (\<lambda>e. ev_start e = k) es"
    by (simp add: filter_fold_ins_after)
  have l: "length (fold ins_after es []) = length es" by (simp add: length_fold_ins_after)
  show ?thesis using T(1) g f l ordered_fold by blast
qed

theorem C5_ordered_data_stable_witness:
  "[\<lparr>ev_id = 1, ev_start = 20, ev_end = 100\<rparr>, \<lparr>ev_id = 2, ev_start = 20, ev_end = 100\<rparr>,
    \<lparr>ev_id = 3, ev_start = 10, ev_end = 30\<rparr>] \<noteq> [] \<and>
   (\<exists>T ds. insert_all (new_Tree Event_comparator)
            [\<lparr>ev_id = 1, ev_start = 20, ev_end = 100\<rparr>, \<lparr>ev_id = 2, ev_start = 20, ev_end = 100\<rparr>,
             \<lparr>ev_id = 3, ev_start = 10, ev_end = 30\<rparr>] = Some (Inr T) \<and>
           getOrderedData T None = Some (Inr ds) \<and>
           sorted (map ev_start ds) \<and> length ds = 3 \<and>
           filter (\<lambda>e. ev_start e = 20) ds =
             [\<lparr>ev_id = 1, ev_start = 20, ev_end = 100\<rparr>, \<lparr>ev_id = 2, ev_start = 20, ev_end = 100\<rparr>])"
proof -
  have h: "[\<lparr>ev_id = 1, ev_start = 20, ev_end = 100\<rparr>, \<lparr>ev_id = 2, ev_start = 20, ev_end = 100\<rparr>,
    \<lparr>ev_id = 3, ev_start = 10, ev_end = (30::int)\<rparr>] \<noteq> []" by simp
  from C5_ordered_data_stable[OF h] obtain T ds where
    a: "insert_all (new_Tree Event_comparator)
            [\<lparr>ev_id = 1, ev_start = 20, ev_end = 100\<rparr>, \<lparr>ev_id = 2, ev_start = 20, ev_end = 100\<rparr>,
             \<lparr>ev_id = 3, ev_start = 10, ev_end = 30\<rparr>] = Some (Inr T)"
       "getOrderedData T None = Some (Inr ds)" "sorted (map ev_start ds)"
       "length ds = length [\<lparr>ev_id = 1, ev_start = 20, ev_end = 100\<rparr>, \<lparr>ev_id = 2, ev_start = 20, ev_end = 100\<rparr>,
             \<lparr>ev_id = 3, ev_start = 10, ev_end = (30::int)\<rparr>]"
       "\<forall>k. filter (\<lambda>e. ev_start e = k) ds = filter (\<lambda>e. ev_start e = k)
           [\<lparr>ev_id = 1, ev_start = 20, ev_end = 100\<rparr>, \<lparr>ev_id = 2, ev_start = 20, ev_end = 100\<rparr>,
             \<lparr>ev_id = 3, ev_start = 10, ev_end = 30\<rparr>]" by blast
  from a(5) have "filter (\<lambda>e. ev_start e = 20) ds =
             [\<lparr>ev_id = 1, ev_start = 20, ev_end = 100\<rparr>, \<lparr>ev_id = 2, ev_start = 20, ev_end = 100\<rparr>]"
    by simp
  with a h show ?thesis by auto
qed

text \<open>
  Claim C6 as stated fails on the left edge: \<^verbatim>\<open>Event.prototype.render\<close> sets
  \<^verbatim>\<open>left\<close> to \<^verbatim>\<open>(level * width) + 10\<close>.  The event with id 1 from 20 to 100, laid
  out alone in a calendar with the default width 600 and a border box, gets the top 20,
  the height 80 and the width 600 as the claim says, but the left edge 10, which is not
  0 times the width.
\<close>

theorem C6_left_has_offset:
  "case layOutDay
          \<lparr>BORDER_BOX = True, elementInset = \<lparr>borderLeft = 0, borderRight = 0, borderTop = 0,
             borderBottom = 0, paddingLeft = 0, paddingRight = 0, paddingTop = 0, paddingBottom = 0\<rparr>\<rparr>
          (new_Calendar getDefaultOptions) [\<lparr>ev_id = 1, ev_start = 20, ev_end = 100\<rparr>] of
     Some (Inr ordered, C') \<Rightarrow>
       c_eventsHtml C' = [\<lparr>h_id = 1, h_top = 20, h_left = 10, h_width = 600, h_height = 80\<rparr>] \<and>
       h_left (hd (c_eventsHtml C')) \<noteq> 0 * h_width (hd (c_eventsHtml C'))
   | _ \<Rightarrow> False"
  by code_simp

text \<open>
  Claim C6, amended.  For every non-empty list of events \<^verbatim>\<open>layOutDay\<close> returns
  normally, and the events container holds, batch by batch and column by column, a
  \<^verbatim>\<open>div\<close> for every event of the column with the geometry of \<open>positioned\<close>: the
  width is the total width divided by the number of columns of the batch, the left edge
  is the column index times that width plus 10, the top is the start and the height is
  end minus start (width and height less the inset of the element when the browser has
  no border box; every arithmetic result rounded to a double).  When the ids are
  distinct, every event is placed in a column of some batch.  The event with id 1 from
  20 to 100 laid out alone gives one batch of one column, and one \<^verbatim>\<open>div\<close>, in column
  0 of 1 column.
\<close>

theorem C6_geometry:
  assumes "es \<noteq> []"
  shows "(\<exists>ordered C' batches. layOutDay en C es = Some (Inr ordered, C') \<and>
            layout_bins C es = Some batches \<and>
            (distinct (map ev_id es) \<longrightarrow> (\<forall>e \<in> set es. \<exists>bins \<in> set batches. placed bins e)) \<and>
            c_eventsHtml C' = concat (map (batch_html en (o_width (c_options C))) batches)) \<and>
         (\<exists>C'. layOutDay en C [\<lparr>ev_id = 1, ev_start = 20, ev_end = 100\<rparr>]
                  = Some (Inr [\<lparr>ev_id = 1, ev_start = 20, ev_end = 100\<rparr>], C') \<and>
               layout_bins C [\<lparr>ev_id = 1, ev_start = 20, ev_end = 100\<rparr>]
                  = Some [[\<lparr>b_max = 100, b_events = [\<lparr>ev_id = 1, ev_start = 20, ev_end = 100\<rparr>]\<rparr>]] \<and>
               c_eventsHtml C' = [positioned en (o_width (c_options C)) 1 0
                                    \<lparr>ev_id = 1, ev_start = 20, ev_end = 100\<rparr>])"
proof -
  from layOutDay_batches[OF assms(1), of en C] obtain C' batches where b:
    "layOutDay en C es = Some (Inr (fold ins_after es []), C')"
    "layout_bins C es = Some batches"
    "c_eventsHtml C' = concat (map (batch_html en (o_width (c_options C))) batches)"
    "inj_on ev_id (set es) \<longrightarrow> (\<forall>e \<in> set es. \<exists>b \<in> set batches. placed b e)"
    by blast
  have "distinct (map ev_id es) \<longrightarrow> (\<forall>e \<in> set es. \<exists>bins \<in> set batches. placed bins e)"
    using b(4) by (simp add: distinct_map)
  then have "\<exists>ordered C' batches. layOutDay en C es = Some (Inr ordered, C') \<and>
            layout_bins C es = Some batches \<and>
            (distinct (map ev_id es) \<longrightarrow> (\<forall>e \<in> set es. \<exists>bins \<in> set batches. placed bins e)) \<and>
            c_eventsHtml C' = concat (map (batch_html en (o_width (c_options C))) batches)"
    using b(1,2,3) by blast
  moreover have "\<exists>C'. layOutDay en C [\<lparr>ev_id = 1, ev_start = 20, ev_end = 100\<rparr>]
                  = Some (Inr [\<lparr>ev_id = 1, ev_start = 20, ev_end = 100\<rparr>], C') \<and>
               layout_bins C [\<lparr>ev_id = 1, ev_start = 20, ev_end = 100\<rparr>]
                  = Some [[\<lparr>b_max = 100, b_events = [\<lparr>ev_id = 1, ev_start = 20, ev_end = 100\<rparr>]\<rparr>]] \<and>
               c_eventsHtml C' = [positioned en (o_width (c_options C)) 1 0
                                    \<lparr>ev_id = 1, ev_start = 20, ev_end = 100\<rparr>]"
    using layOutDay_single[of "\<lparr>ev_id = 1, ev_start = 20, ev_end = 100\<rparr>" en C] by simp
  ultimately show ?thesis by blast
qed

theorem C6_geometry_witness:
  "[\<lparr>ev_id = 1, ev_start = 0, ev_end = 100\<rparr>, \<lparr>ev_id = 2, ev_start = 50, ev_end = 200\<rparr>] \<noteq> [] \<and>
   (\<exists>ordered C' batches.
      layOutDay
        \<lparr>BORDER_BOX = False, elementInset = \<lparr>borderLeft = 1, borderRight = 1, borderTop = 1,
           borderBottom = 1, paddingLeft = 5, paddingRight = 5, paddingTop = 0, paddingBottom = 0\<rparr>\<rparr>
        (new_Calendar getDefaultOptions)
        [\<lparr>ev_id = 1, ev_start = 0, ev_end = 100\<rparr>, \<lparr>ev_id = 2, ev_start = 50, ev_end = 200\<rparr>] = Some (Inr ordered, C') \<and>
      layout_bins (new_Calendar getDefaultOptions)
        [\<lparr>ev_id = 1, ev_start = 0, ev_end = 100\<rparr>, \<lparr>ev_id = 2, ev_start = 50, ev_end = 200\<rparr>] = Some batches \<and>
      (\<forall>e \<in> set [\<lparr>ev_id = 1, ev_start = 0, ev_end = 100\<rparr>, \<lparr>ev_id = 2, ev_start = 50, ev_end = 200\<rparr>]. \<exists>bins \<in> set batches. placed bins e) \<and>
      c_eventsHtml C' = concat (map (batch_html
        \<lparr>BORDER_BOX = False, elementInset = \<lparr>borderLeft = 1, borderRight = 1, borderTop = 1,
           borderBottom = 1, paddingLeft = 5, paddingRight = 5, paddingTop = 0, paddingBottom = 0\<rparr>\<rparr>
        600) batches)) \<and>
   (\<exists>C'. layOutDay
        \<lparr>BORDER_BOX = False, elementInset = \<lparr>borderLeft = 1, borderRight = 1, borderTop = 1,
           borderBottom = 1, paddingLeft = 5, paddingRight = 5, paddingTop = 0, paddingBottom = 0\<rparr>\<rparr>
        (new_Calendar getDefaultOptions) [\<lparr>ev_id = 1, ev_start = 20, ev_end = 100\<rparr>]
          = Some (Inr [\<lparr>ev_id = 1, ev_start = 20, ev_end = 100\<rparr>], C') \<and>
        layout_bins (new_Calendar getDefaultOptions) [\<lparr>ev_id = 1, ev_start = 20, ev_end = 100\<rparr>]
          = Some [[\<lparr>b_max = 100, b_events = [\<lparr>ev_id = 1, ev_start = 20, ev_end = 100\<rparr>]\<rparr>]] \<and>
        c_eventsHtml C' = [\<lparr>h_id = 1, h_top = 20, h_left = 10, h_width = 588, h_height = 78\<rparr>])"
proof -
  have h: "[\<lparr>ev_id = 1, ev_start = 0, ev_end = 100\<rparr>, \<lparr>ev_id = 2, ev_start = 50, ev_end = (200::int)\<rparr>] \<noteq> []" by simp
  have d: "distinct (map ev_id [\<lparr>ev_id = 1, ev_start = 0, ev_end = 100\<rparr>, \<lparr>ev_id = 2, ev_start = 50, ev_end = 200\<rparr>])" by simp
  have w: "o_width (c_options (new_Calendar getDefaultOptions)) = 600"
    by (simp add: new_Calendar_def getDefaultOptions_def)
  have p: "positioned
        \<lparr>BORDER_BOX = False, elementInset = \<lparr>borderLeft = 1, borderRight = 1, borderTop = 1,
           borderBottom = 1, paddingLeft = 5, paddingRight = 5, paddingTop = 0, paddingBottom = 0\<rparr>\<rparr>
        600 1 0 \<lparr>ev_id = 1, ev_start = 20, ev_end = 100\<rparr> = \<lparr>h_id = 1, h_top = 20, h_left = 10, h_width = 588, h_height = 78\<rparr>"
    by code_simp
  have c: "(\<exists>ordered C' batches.
      layOutDay
        \<lparr>BORDER_BOX = False, elementInset = \<lparr>borderLeft = 1, borderRight = 1, borderTop = 1,
           borderBottom = 1, paddingLeft = 5, paddingRight = 5, paddingTop = 0, paddingBottom = 0\<rparr>\<rparr>
        (new_Calendar getDefaultOptions)
        [\<lparr>ev_id = 1, ev_start = 0, ev_end = 100\<rparr>, \<lparr>ev_id = 2, ev_start = 50, ev_end = 200\<rparr>] = Some (Inr ordered, C') \<and>
      layout_bins (new_Calendar getDefaultOptions)
        [\<lparr>ev_id = 1, ev_start = 0, ev_end = 100\<rparr>, \<lparr>ev_id = 2, ev_start = 50, ev_end = 200\<rparr>] = Some batches \<and>
      (\<forall>e \<in> set [\<lparr>ev_id = 1, ev_start = 0, ev_end = 100\<rparr>, \<lparr>ev_id = 2, ev_start = 50, ev_end = 200\<rparr>]. \<exists>bins \<in> set batches. placed bins e) \<and>
      c_eventsHtml C' = concat (map (batch_html
        \<lparr>BORDER_BOX = False, elementInset = \<lparr>borderLeft = 1, borderRight = 1, borderTop = 1,
           borderBottom = 1, paddingLeft = 5, paddingRight = 5, paddingTop = 0, paddingBottom = 0\<rparr>\<rparr>
        600) batches)) \<and>
   (\<exists>C'. layOutDay
        \<lparr>BORDER_BOX = False, elementInset = \<lparr>borderLeft = 1, borderRight = 1, borderTop = 1,
           borderBottom = 1, paddingLeft = 5, paddingRight = 5, paddingTop = 0, paddingBottom = 0\<rparr>\<rparr>
        (new_Calendar getDefaultOptions) [\<lparr>ev_id = 1, ev_start = 20, ev_end = 100\<rparr>]
          = Some (Inr [\<lparr>ev_id = 1, ev_start = 20, ev_end = 100\<rparr>], C') \<and>
        layout_bins (new_Calendar getDefaultOptions) [\<lparr>ev_id = 1, ev_start = 20, ev_end = 100\<rparr>]
          = Some [[\<lparr>b_max = 100, b_events = [\<lparr>ev_id = 1, ev_start = 20, ev_end = 100\<rparr>]\<rparr>]] \<and>
        c_eventsHtml C' = [\<lparr>h_id = 1, h_top = 20, h_left = 10, h_width = 588, h_height = 78\<rparr>])"
    using C6_geometry[OF h, of
      "\<lparr>BORDER_BOX = False, elementInset = \<lparr>borderLeft = 1, borderRight = 1, borderTop = 1,
           borderBottom = 1, paddingLeft = 5, paddingRight = 5, paddingTop = 0, paddingBottom = 0\<rparr>\<rparr>"
      "new_Calendar getDefaultOptions"] d
    unfolding w p by blast
  show ?thesis by (intro conjI h c[THEN conjunct1] c[THEN conjunct2])
qed

text \<open>
  Claim C7 as stated fails: \<^verbatim>\<open>insert\<close> has no \<^verbatim>\<open>return\<close> statement, so a call
  evaluates to \<^verbatim>\<open>undefined\<close>, not to the new node.
\<close>

theorem C7_insert_returns_undefined:
  "map_option (map_sum id snd)
     (Tree_insert (new_Tree Event_comparator) \<lparr>ev_id = 1, ev_start = 20, ev_end = 100\<rparr>)
     = Some (Inr Undefined) \<and>
   map_option (map_sum id snd)
     (Tree_insert (new_Tree Event_comparator) \<lparr>ev_id = 1, ev_start = 20, ev_end = 100\<rparr>)
     \<noteq> Some (Inr (NodeRef 0))"
  by code_simp

text \<open>
  Claim C7, amended.  On the tree built by inserting any sequence of intervals into an
  empty tree, and for every interval (duplicates included), \<^verbatim>\<open>_insertNode\<close> returns
  the new node and \<^verbatim>\<open>insert\<close> returns normally with \<^verbatim>\<open>undefined\<close>.  Afterwards the
  tree holds the new node, which carries the interval; the data of the tree in order is
  the data before the call with the interval added at one place; and the size has grown
  by one.
\<close>

theorem C7_insert_adds_node:
  "\<exists>T T1 T' t t' xs ys. insert_all (new_Tree cmp) es = Some (Inr T) \<and>
     insertNode T d = Some (Inr (T1, Some (length es))) \<and>
     Tree_insert T d = Some (Inr (T', Undefined)) \<and>
     the_tree T = Some t \<and> the_tree T' = Some t' \<and>
     map n_data (inorder t) = xs @ ys \<and>
     map n_data (inorder t') = xs @ d # ys \<and>
     t_nodes T' ! length es \<in> set (inorder t') \<and>
     n_data (t_nodes T' ! length es) = d \<and>
     getSize T = length es \<and> getSize T' = Suc (length es)"
proof -
  let ?t = "ins_seq cmp 0 es Leaf"
  let ?p = "path cmp d ?t"
  from insert_all_new[of cmp es] obtain T where T:
    "insert_all (new_Tree cmp) es = Some (Inr T)" "rbt_repr T ?t"
    "length (t_nodes T) = length es" "t_comparator T = cmp" "t_size T = length es" by blast
  from T(2) have r: "repr (t_nodes T) None ?t" "t_root T = rootptr ?t" "distinct (addrs ?t)"
    by (simp_all add: rbt_repr_def)
  from insertNode_sim[OF r, of d] obtain T1 where
    1: "insertNode T d = Some (Inr (T1, Some (length es)))" unfolding T(3) by blast
  let ?t' = "ins cmp (length es) d ?t"
  from Tree_insert_rbt[OF T(2), of d] obtain T' where 2:
    "Tree_insert T d = Some (Inr (T', Undefined))" "rbt_repr T' ?t'"
    "t_size T' = t_size T + 1" unfolding T(3,4) by blast
  from 2(2) have r': "repr (t_nodes T') None ?t'" "t_root T' = rootptr ?t'" "distinct (addrs ?t')"
    by (simp_all add: rbt_repr_def)
  let ?e = "erase (t_nodes T) ?t" and ?e' = "erase (t_nodes T') ?t'"
  have tt: "the_tree T = Some ?e" using r by (rule the_tree_repr)
  have tt': "the_tree T' = Some ?e'" using r' by (rule the_tree_repr)
  have k: "keys ?t = before ?p @ after ?p"
    using keys_plug[of ?p Leaf] by (simp add: plug_path)
  have k': "keys ?t' = before ?p @ (length es, d) # after ?p" by (simp add: keys_ins)
  have a: "map n_data (inorder ?e) = map snd (before ?p) @ map snd (after ?p)"
    using inorder_erase[OF r(1)] k by (simp add: dl_def)
  have b: "map n_data (inorder ?e') = map snd (before ?p) @ d # map snd (after ?p)"
    using inorder_erase[OF r'(1)] k' by (simp add: dl_def)
  have "length es \<in> set (addrs ?t')" using k' by (simp add: addrs_keys)
  moreover have "map (\<lambda>a. t_nodes T' ! a) (addrs ?t') = inorder ?e'"
    using inorder_erase[OF r'(1)] by simp
  ultimately have c: "t_nodes T' ! length es \<in> set (inorder ?e')"
    by (metis (no_types, lifting) image_eqI list.set_map)
  have "(length es, d) \<in> set (keys ?t')" using k' by simp
  with repr_data[OF r'(1)] have e: "n_data (t_nodes T' ! length es) = d" by blast
  show ?thesis using T(1,5) 1 2(1,3) tt tt' a b c e unfolding getSize_def
    by (intro exI[of _ T] exI[of _ T1] exI[of _ T'] exI[of _ ?e] exI[of _ ?e']
          exI[of _ "map snd (before ?p)"] exI[of _ "map snd (after ?p)"]) simp
qed

theorem C7_insert_adds_node_witness:
  "\<exists>T T1 T' t t' xs ys.
     insert_all (new_Tree Event_comparator)
       [\<lparr>ev_id = 1, ev_start = 20, ev_end = 100\<rparr>, \<lparr>ev_id = 2, ev_start = 20, ev_end = 100\<rparr>,
        \<lparr>ev_id = 3, ev_start = 10, ev_end = 30\<rparr>] = Some (Inr T) \<and>
     insertNode T \<lparr>ev_id = 1, ev_start = 20, ev_end = 100\<rparr> = Some (Inr (T1, Some 3)) \<and>
     Tree_insert T \<lparr>ev_id = 1, ev_start = 20, ev_end = 100\<rparr> = Some (Inr (T', Undefined)) \<and>
     the_tree T = Some t \<and> the_tree T' = Some t' \<and>
     map n_data (inorder t) = xs @ ys \<and>
     map n_data (inorder t') = xs @ \<lparr>ev_id = 1, ev_start = 20, ev_end = 100\<rparr> # ys \<and>
     t_nodes T' ! 3 \<in> set (inorder t') \<and>
     n_data (t_nodes T' ! 3) = \<lparr>ev_id = 1, ev_start = 20, ev_end = 100\<rparr> \<and>
     getSize T = 3 \<and> getSize T' = 4"
proof -
  have l: "length [\<lparr>ev_id = 1, ev_start = 20, ev_end = 100\<rparr>, \<lparr>ev_id = 2, ev_start = 20, ev_end = 100\<rparr>,
        \<lparr>ev_id = 3, ev_start = 10, ev_end = (30::int)\<rparr>] = 3" "Suc 3 = 4" by simp_all
  show ?thesis
    using C7_insert_adds_node[of Event_comparator
      "[\<lparr>ev_id = 1, ev_start = 20, ev_end = 100\<rparr>, \<lparr>ev_id = 2, ev_start = 20, ev_end = 100\<rparr>,
        \<lparr>ev_id = 3, ev_start = 10, ev_end = 30\<rparr>]" "\<lparr>ev_id = 1, ev_start = 20, ev_end = 100\<rparr>"]
    unfolding l .
qed

text \<open>
  Claim C8.  On an empty tree \<^verbatim>\<open>minimum\<close>, \<^verbatim>\<open>maximum\<close>, the three ordered
  traversals and \<^verbatim>\<open>searchInterval\<close> raise a \<^verbatim>\<open>TypeError\<close>; none of them writes to
  the tree.  \<^verbatim>\<open>render\<close> on a calendar without events raises "No events set" and leaves
  the calendar as it was.
\<close>

theorem C8_failure_before_events:
  assumes "t_root T = None" "c_events C = None"
  shows "minimum T None = Some (Inl TypeError) \<and> maximum T None = Some (Inl TypeError) \<and>
         getOrderedData T None = Some (Inl TypeError) \<and>
         getOrdered T None = Some (Inl TypeError) \<and>
         getReverseOrderedData T None = Some (Inl TypeError) \<and>
         searchInterval T q None = Some (Inl TypeError) \<and>
         render en C = Some (Inl NoEventsSet, C)"
  using assms
  by (simp add: minimum_empty maximum_empty getOrderedData_def getOrdered_def
        getReverseOrderedData_def searchInterval.simps[of T q None] getChild_def render_def)

theorem C8_failure_before_events_witness:
  "t_root (new_Tree Event_comparator) = None \<and> c_events (new_Calendar getDefaultOptions) = None \<and>
   minimum (new_Tree Event_comparator) None = Some (Inl TypeError) \<and>
   getOrderedData (new_Tree Event_comparator) None = Some (Inl TypeError) \<and>
   searchInterval (new_Tree Event_comparator) \<lparr>ev_id = 0, ev_start = 10, ev_end = 30\<rparr> None
     = Some (Inl TypeError) \<and>
   render \<lparr>BORDER_BOX = True, elementInset = \<lparr>borderLeft = 0, borderRight = 0, borderTop = 0,
       borderBottom = 0, paddingLeft = 0, paddingRight = 0, paddingTop = 0, paddingBottom = 0\<rparr>\<rparr>
     (new_Calendar getDefaultOptions) = Some (Inl NoEventsSet, new_Calendar getDefaultOptions)"
proof -
  have h: "t_root (new_Tree Event_comparator) = None" "c_events (new_Calendar getDefaultOptions) = None"
    by (simp_all add: new_Tree_def new_Calendar_def)
  from C8_failure_before_events[OF h, of "\<lparr>ev_id = 0, ev_start = 10, ev_end = 30\<rparr>"
      "\<lparr>BORDER_BOX = True, elementInset = \<lparr>borderLeft = 0, borderRight = 0, borderTop = 0,
       borderBottom = 0, paddingLeft = 0, paddingRight = 0, paddingTop = 0, paddingBottom = 0\<rparr>\<rparr>"] h
  show ?thesis by simp
qed

text \<open>
  Claim C9.  On the tree built by inserting a non-empty sequence of intervals, and for
  every argument, \<^verbatim>\<open>getOrderedData\<close>, \<^verbatim>\<open>getOrdered\<close> and
  \<^verbatim>\<open>getReverseOrderedData\<close> return normally and return what the call without
  argument returns: the data of all nodes of the tree in order, the nodes of the tree in
  order, starting at \<^verbatim>\<open>minimum()\<close> and ending at \<^verbatim>\<open>maximum()\<close>, and the data of
  all nodes in reverse order.  On any tree at all, a call with an argument does what the
  call without argument does.
\<close>

theorem C9_traversals_ignore_start_node:
  assumes "es \<noteq> []"
  shows "\<exists>T t refs. insert_all (new_Tree cmp) es = Some (Inr T) \<and> the_tree T = Some t \<and>
     length (inorder t) = length es \<and>
     getOrderedData T node = Some (Inr (map n_data (inorder t))) \<and>
     getOrderedData T None = Some (Inr (map n_data (inorder t))) \<and>
     getOrdered T node = Some (Inr refs) \<and>
     getOrdered T None = Some (Inr refs) \<and>
     map (deref T) refs = map Inr (inorder t) \<and>
     minimum T None = Some (Inr (hd refs)) \<and>
     maximum T None = Some (Inr (last refs)) \<and>
     getReverseOrderedData T node = Some (Inr (rev (map n_data (inorder t)))) \<and>
     getReverseOrderedData T None = Some (Inr (rev (map n_data (inorder t)))) \<and>
     (\<forall>S. getOrderedData S node = getOrderedData S None \<and>
          getOrdered S node = getOrdered S None \<and>
          getReverseOrderedData S node = getReverseOrderedData S None)"
proof -
  let ?t = "ins_seq cmp 0 es Leaf"
  from insert_all_new[of cmp es] obtain T where T:
    "insert_all (new_Tree cmp) es = Some (Inr T)" "rbt_repr T ?t" by blast
  from T(2) have r: "repr (t_nodes T) None ?t" "t_root T = rootptr ?t" "distinct (addrs ?t)"
    by (simp_all add: rbt_repr_def)
  have ne: "?t \<noteq> Leaf" using assms by (simp add: ins_seq_Leaf_iff)
  let ?e = "erase (t_nodes T) ?t"
  have tt: "the_tree T = Some ?e" using r by (rule the_tree_repr)
  from inorder_erase[OF r(1)] have io: "map n_data (inorder ?e) = dl ?t"
    "map (\<lambda>a. t_nodes T ! a) (addrs ?t) = inorder ?e" "\<forall>a \<in> set (addrs ?t). a < length (t_nodes T)"
    by simp_all
  have len: "length (inorder ?e) = length es"
    using length_keys_ins_seq[of cmp 0 es Leaf] io(2)[symmetric] by (simp add: addrs_keys)
  have ane: "addrs ?t \<noteq> []" using ne by (cases ?t) (auto simp: addrs_keys)
  have d: "map (deref T) (map Some (addrs ?t)) = map Inr (inorder ?e)"
    using deref_addrs[OF io(3)] io(2) by simp
  have mn: "minimum T None = Some (Inr (hd (map Some (addrs ?t))))"
    using getOrdered_sim(2)[OF r ne] ane by (simp add: hd_map)
  have mx: "maximum T None = Some (Inr (last (map Some (addrs ?t))))"
    using getReverseOrderedData_sim(2)[OF r ne] ane by (simp add: last_map)
  have od: "\<And>arg. getOrderedData T arg = Some (Inr (map n_data (inorder ?e)))"
    using getOrderedData_sim[OF r ne] io(1) by simp
  have rd: "\<And>arg. getReverseOrderedData T arg = Some (Inr (rev (map n_data (inorder ?e))))"
    using getReverseOrderedData_sim(1)[OF r ne] io(1) by simp
  have go: "\<And>arg. getOrdered T arg = Some (Inr (map Some (addrs ?t)))"
    using getOrdered_sim(1)[OF r ne] .
  have ig: "\<forall>S. getOrderedData S node = getOrderedData S None \<and>
          getOrdered S node = getOrdered S None \<and>
          getReverseOrderedData S node = getReverseOrderedData S None"
    by (simp add: getOrderedData_def getOrdered_def getReverseOrderedData_def)
  show ?thesis
    by (intro exI[of _ T] exI[of _ ?e] exI[of _ "map Some (addrs ?t)"] conjI
          T(1) tt len od go d mn mx rd ig)
qed

theorem C9_traversals_ignore_start_node_witness:
  "[\<lparr>ev_id = 1, ev_start = 20, ev_end = 100\<rparr>, \<lparr>ev_id = 2, ev_start = 40, ev_end = 150\<rparr>,
    \<lparr>ev_id = 3, ev_start = 10, ev_end = 30\<rparr>] \<noteq> [] \<and>
   (\<exists>T t refs. insert_all (new_Tree Event_comparator)
       [\<lparr>ev_id = 1, ev_start = 20, ev_end = 100\<rparr>, \<lparr>ev_id = 2, ev_start = 40, ev_end = 150\<rparr>,
        \<lparr>ev_id = 3, ev_start = 10, ev_end = 30\<rparr>] = Some (Inr T) \<and>
     the_tree T = Some t \<and> length (inorder t) = 3 \<and>
     getOrderedData T (Some 1) = Some (Inr (map n_data (inorder t))) \<and>
     getOrderedData T None = Some (Inr (map n_data (inorder t))) \<and>
     getOrdered T (Some 1) = Some (Inr refs) \<and>
     getOrdered T None = Some (Inr refs) \<and>
     map (deref T) refs = map Inr (inorder t) \<and>
     minimum T None = Some (Inr (hd refs)) \<and>
     maximum T None = Some (Inr (last refs)) \<and>
     getReverseOrderedData T (Some 1) = Some (Inr (rev (map n_data (inorder t)))) \<and>
     getReverseOrderedData T None = Some (Inr (rev (map n_data (inorder t)))) \<and>
     (\<forall>S. getOrderedData S (Some 1) = getOrderedData S None \<and>
          getOrdered S (Some 1) = getOrdered S None \<and>
          getReverseOrderedData S (Some 1) = getReverseOrderedData S None))"
proof -
  have h: "[\<lparr>ev_id = 1, ev_start = 20, ev_end = 100\<rparr>, \<lparr>ev_id = 2, ev_start = 40, ev_end = 150\<rparr>,
    \<lparr>ev_id = 3, ev_start = 10, ev_end = (30::int)\<rparr>] \<noteq> []" by simp
  have l: "length [\<lparr>ev_id = 1, ev_start = 20, ev_end = 100\<rparr>, \<lparr>ev_id = 2, ev_start = 40, ev_end = 150\<rparr>,
    \<lparr>ev_id = 3, ev_start = 10, ev_end = (30::int)\<rparr>] = 3" by simp
  show ?thesis
    using C9_traversals_ignore_start_node[OF h, of Event_comparator "Some 1"]
    unfolding l by (intro conjI h)
qed

text \<open>
  Claim C10.  On a tree built from a non-empty sequence of events with
  \<^verbatim>\<open>Event.comparator\<close>, \<^verbatim>\<open>searchInterval\<close> returns normally, and its result is
  non-decreasing by start; every interval in it is stored and collides with the query.
\<close>

theorem C10_search_result_sorted:
  assumes "es \<noteq> []"
  shows "\<exists>T res. insert_all (new_Tree Event_comparator) es = Some (Inr T) \<and>
           searchInterval T q None = Some (Inr res) \<and> sorted (map ev_start res) \<and>
           (\<forall>e \<in> set res. e \<in> set es \<and> isColliding e q)"
proof -
  let ?t = "ins_seq Event_comparator 0 es Leaf"
  from insert_all_new[of Event_comparator es] obtain T where T:
    "insert_all (new_Tree Event_comparator) es = Some (Inr T)" "rbt_repr T ?t" by blast
  from T(2) have r: "repr (t_nodes T) None ?t" "t_root T = rootptr ?t"
    by (simp_all add: rbt_repr_def)
  have ne: "?t \<noteq> Leaf" using assms by (simp add: ins_seq_Leaf_iff)
  then obtain a where a: "rootptr ?t = Some a" by (cases ?t) auto
  have d: "dl ?t = fold ins_after es []" by (simp add: dl_ins_seq)
  from searchInterval_sim[OF r(1) ne, of q] obtain res where res:
    "searchInterval T q (rootptr ?t) = Some (Inr res)" "subseq res (dl ?t)"
    "\<forall>e \<in> set res. isColliding e q" by blast
  have "searchInterval T q None = Some (Inr res)"
    using res(1) searchInterval_None[of T a q] r(2) a by simp
  moreover have "sorted (map ev_start res)"
    using subseq_sorted[OF res(2), of ev_start] d ordered_fold[of es] by simp
  moreover have "set res \<subseteq> set es"
    using list_emb_set[OF res(2)] d set_fold_ins_after[of es "[]"] by auto
  ultimately show ?thesis using T(1) res(3) by blast
qed

theorem C10_search_result_sorted_witness:
  "[\<lparr>ev_id = 1, ev_start = 20, ev_end = 100\<rparr>, \<lparr>ev_id = 2, ev_start = 40, ev_end = 150\<rparr>] \<noteq> [] \<and>
   (\<exists>T res. insert_all (new_Tree Event_comparator)
       [\<lparr>ev_id = 1, ev_start = 20, ev_end = 100\<rparr>, \<lparr>ev_id = 2, ev_start = 40, ev_end = 150\<rparr>] = Some (Inr T) \<and>
     searchInterval T \<lparr>ev_id = 0, ev_start = 10, ev_end = 30\<rparr> None = Some (Inr res) \<and>
     sorted (map ev_start res))"
proof -
  have h: "[\<lparr>ev_id = 1, ev_start = 20, ev_end = 100\<rparr>, \<lparr>ev_id = 2, ev_start = 40, ev_end = (150::int)\<rparr>] \<noteq> []"
    by simp
  from C10_search_result_sorted[OF h, of "\<lparr>ev_id = 0, ev_start = 10, ev_end = 30\<rparr>"] h
  show ?thesis by blast
qed

end
